theory Spec2Isabelle
  imports Complex_Main
begin

section \<open>Tensors, errors\<close>

text \<open>
  The model follows \<^verbatim>\<open>deepvoice3.py\<close>. Activations are real-valued: a vector is the
  channel axis, a matrix is (time, channel) for one batch element, a tensor is
  (batch, time, channel). The source changes the axis order for the convolutions
  (\<^verbatim>\<open>transpose(0, 1)\<close>, \<^verbatim>\<open>keys.transpose(1, 2)\<close>); that is storage layout, and the
  model indexes every tensor batch first, time second. Floating-point numbers are
  idealised to the reals. Dropout is the identity (\<^verbatim>\<open>training = False\<close>).
\<close>

type_synonym vec = "real list"
type_synonym mat = "vec list"
type_synonym tensor = "mat list"

datatype error =
    AssertionError
  | IndexError
  | ZeroDivisionError
  | AttributeError
  | RuntimeError
  | FloatNaN

section \<open>get_mask_from_lengths\<close>

text \<open>
  \<^verbatim>\<open>mask = memory.data.new(memory.size(0), memory.size(1)).byte().zero_()\<close>:
  a byte tensor of zeros; a byte is modelled as a \<open>bool\<close> (1 is \<open>True\<close>) and
  \<^verbatim>\<open>~mask\<close> on a 0/1 byte tensor as negation.
\<close>

definition size0 :: "'a list list \<Rightarrow> nat" where
  "size0 m = length m"

definition size1 :: "'a list list \<Rightarrow> nat" where
  "size1 m = (case m of [] \<Rightarrow> 0 | row # _ \<Rightarrow> length row)"

text \<open>\<^verbatim>\<open>row[:l] = 1\<close> with Python's slice bounds: a negative \<open>l\<close> counts from the end,
  and the bound is clipped to the row.\<close>

definition slice_stop :: "int \<Rightarrow> nat \<Rightarrow> nat" where
  "slice_stop l n = (if l < 0 then nat (max 0 (int n + l)) else min (nat l) n)"

definition fill_prefix :: "int \<Rightarrow> bool list \<Rightarrow> bool list" where
  "fill_prefix l row =
     replicate (slice_stop l (length row)) True @ drop (slice_stop l (length row)) row"

text \<open>\<^verbatim>\<open>for idx, l in enumerate(memory_lengths): mask[idx][:l] = 1\<close>; \<^verbatim>\<open>mask[idx]\<close>
  raises when \<open>idx\<close> is not a row of the mask.\<close>

fun mask_rows :: "nat \<Rightarrow> int list \<Rightarrow> bool list list \<Rightarrow> error + bool list list" where
  "mask_rows idx [] msk = Inr msk"
| "mask_rows idx (l # ls) msk =
     (if idx < length msk
      then mask_rows (Suc idx) ls (msk[idx := fill_prefix l (msk ! idx)])
      else Inl IndexError)"

definition get_mask_from_lengths :: "tensor \<Rightarrow> int list \<Rightarrow> error + bool list list" where
  "get_mask_from_lengths memory memory_lengths =
     (case mask_rows 0 memory_lengths
             (replicate (size0 memory) (replicate (size1 memory) False)) of
        Inl e \<Rightarrow> Inl e
      | Inr msk \<Rightarrow> Inr (map (map Not) msk))"

section \<open>Numeric primitives\<close>

text \<open>Elementwise operations. On tensors of different shapes the numeric library raises
  or broadcasts; the model pairs the entries up to the shorter axis and is meant for
  operands of one shape, which is what the decoder feeds them.\<close>

definition vadd :: "vec \<Rightarrow> vec \<Rightarrow> vec" where
  "vadd x y = map2 (+) x y"

definition tadd :: "tensor \<Rightarrow> tensor \<Rightarrow> tensor" where
  "tadd x y = map2 (map2 vadd) x y"

definition tscale :: "tensor \<Rightarrow> real \<Rightarrow> tensor" where
  "tscale x c = map (map (map (\<lambda>v. v * c))) x"

definition tdiv :: "tensor \<Rightarrow> real \<Rightarrow> tensor" where
  "tdiv x c = map (map (map (\<lambda>v. v / c))) x"

text \<open>A \<^verbatim>\<open>Linear\<close> layer of the numeric library acts on the last axis; its weights are a
  parameter of the model, the function on vectors it computes.\<close>

definition Linear :: "(vec \<Rightarrow> vec) \<Rightarrow> tensor \<Rightarrow> tensor" where
  "Linear f x = map (map f) x"

definition relu :: "real \<Rightarrow> real" where
  "relu v = max 0 v"

definition sigmoid :: "real \<Rightarrow> real" where
  "sigmoid v = 1 / (1 + exp (- v))"

text \<open>\<^verbatim>\<open>a, b = x.split(x.size(-1) // 2, dim=-1); x = a * F.sigmoid(b)\<close>\<close>

definition glu :: "vec \<Rightarrow> vec" where
  "glu x = map2 (\<lambda>a b. a * sigmoid b) (take (length x div 2) x) (drop (length x div 2) x)"

definition dot :: "vec \<Rightarrow> vec \<Rightarrow> real" where
  "dot x y = sum_list (map2 (*) x y)"

text \<open>An embedding lookup; the numeric library raises on an index outside the table.\<close>

definition embedding :: "mat \<Rightarrow> nat list list \<Rightarrow> error + tensor" where
  "embedding w positions =
     (if list_all (list_all (\<lambda>i. i < length w)) positions
      then Inr (map (map (\<lambda>i. w ! i)) positions)
      else Inl RuntimeError)"

section \<open>The causal convolution of the numeric library\<close>

text \<open>
  Modelled from the spec: \<^verbatim>\<open>LinearizedConv1d\<close> is a class of the numeric library
  (fairseq), not of this repository. The spec (4.2) gives its contract: a 1D
  convolution over the time axis, for the decoder padded with \<open>kernel_size - 1\<close>
  frames, the outputs that look at the right padding removed afterwards
  (\<^verbatim>\<open>remove_future_timesteps\<close>); and an incremental variant that keeps the last
  \<open>kernel_size - 1\<close> input frames, appends the new frame, convolves over that
  window, evicts the oldest frame and returns the one new output frame. The kernel
  (weights and bias) is the function \<open>weight\<close> from a window of \<open>kernel_size\<close> frames
  to an output frame.
\<close>

record conv1d =
  kernel_size :: nat
  in_channels :: nat
  weight :: "vec list \<Rightarrow> vec"

definition zero_frame :: "nat \<Rightarrow> vec" where
  "zero_frame n = replicate n 0"

definition padding :: "conv1d \<Rightarrow> mat" where
  "padding c = replicate (kernel_size c - 1) (zero_frame (in_channels c))"

definition windows :: "nat \<Rightarrow> 'a list \<Rightarrow> 'a list list" where
  "windows k xs = map (\<lambda>t. take k (drop t xs)) [0..<Suc (length xs) - k]"

definition conv_forward :: "conv1d \<Rightarrow> tensor \<Rightarrow> tensor" where
  "conv_forward c x =
     map (\<lambda>xb. map (weight c) (windows (kernel_size c) (padding c @ xb @ padding c))) x"

definition remove_future_timesteps :: "conv1d \<Rightarrow> tensor \<Rightarrow> tensor" where
  "remove_future_timesteps c x = map (\<lambda>xb. take (length xb - (kernel_size c - 1)) xb) x"

text \<open>The buffer of a convolution: \<open>None\<close> after \<^verbatim>\<open>clear_buffer\<close>, else for every batch
  element the last \<open>kernel_size - 1\<close> input frames.\<close>

definition incremental_forward_conv ::
  "conv1d \<Rightarrow> tensor option \<Rightarrow> tensor \<Rightarrow> tensor \<times> tensor option" where
  "incremental_forward_conv c buf x =
     (let held = (case buf of None \<Rightarrow> map (\<lambda>_. padding c) x | Some b \<Rightarrow> b);
          window = map2 (\<lambda>hb xb. hb @ xb) held x
      in (map (\<lambda>w. [weight c w]) window, Some (map (drop 1) window)))"

section \<open>AttentionLayer\<close>

record attention_layer =
  in_projection :: "vec \<Rightarrow> vec"
  out_projection :: "vec \<Rightarrow> vec"

text \<open>\<^verbatim>\<open>torch.bmm(x, keys)\<close>, the keys already transposed to (batch, channel, text time):
  entry (b, q, j) is the inner product of query row q and key j of batch element b.\<close>

definition bmm_keys :: "tensor \<Rightarrow> tensor \<Rightarrow> tensor" where
  "bmm_keys x keys = map2 (\<lambda>xb kb. map (\<lambda>q. map (\<lambda>k. dot q k) kb) xb) x keys"

text \<open>A score after \<^verbatim>\<open>masked_fill_(mask, -float("inf"))\<close>: \<open>None\<close> is minus infinity. The mask
  is viewed as (batch, 1, text time) and applies to every query row.\<close>

definition masked_fill :: "tensor \<Rightarrow> bool list list option \<Rightarrow> real option list list list" where
  "masked_fill x msk =
     (case msk of
        None \<Rightarrow> map (map (map Some)) x
      | Some m \<Rightarrow>
          map2 (\<lambda>xb mb. map (\<lambda>row. map2 (\<lambda>v masked. if masked then None else Some v) row mb) xb)
            x m)"

definition exp_score :: "real option \<Rightarrow> real" where
  "exp_score v = (case v of None \<Rightarrow> 0 | Some u \<Rightarrow> exp u)"

definition softmax :: "real option list \<Rightarrow> vec" where
  "softmax row = map (\<lambda>v. exp_score v / sum_list (map exp_score row)) row"

text \<open>A row of nothing but minus infinity: the floating-point softmax of it is NaN in
  every entry. The source raises nothing there; the reals have no NaN, and the model
  ends with \<open>FloatNaN\<close> instead of a value.\<close>

definition nan_row :: "real option list \<Rightarrow> bool" where
  "nan_row row = (row \<noteq> [] \<and> list_all (\<lambda>v. v = None) row)"

text \<open>\<^verbatim>\<open>torch.bmm(x, values)\<close> for one row of weights.\<close>

definition weighted_sum :: "vec \<Rightarrow> mat \<Rightarrow> vec" where
  "weighted_sum w vs = map (\<lambda>c. sum_list (map2 (\<lambda>wj v. wj * v ! c) w vs)) [0..<size1 vs]"

definition attention_forward ::
  "attention_layer \<Rightarrow> tensor \<Rightarrow> tensor \<times> tensor \<Rightarrow> bool list list option
     \<Rightarrow> error + tensor \<times> tensor" where
  "attention_forward a query encoder_out msk =
     (case encoder_out of (keys, values) \<Rightarrow>
        let residual = query;
            x = Linear (in_projection a) query;
            x = bmm_keys x keys;
            xm = masked_fill x msk
        in if list_ex (list_ex nan_row) xm then Inl FloatNaN
           else
             let attn_scores = map (map softmax) xm;
                 x = map2 (\<lambda>xb vb. map (\<lambda>w. weighted_sum w vb) xb) attn_scores values;
                 s = size1 values
             in if s = 0 then Inl ZeroDivisionError
                else
                  let x = tscale x (real s * sqrt (1 / real s));
                      x = tscale (tadd (Linear (out_projection a) x) residual) (sqrt (1 / 2))
                  in Inr (x, attn_scores))"

section \<open>Decoder\<close>

record layer =
  proj :: "(vec \<Rightarrow> vec) option"
  conv :: conv1d
  attention :: "attention_layer option"

text \<open>\<open>layers\<close> is \<^verbatim>\<open>zip(self.projections, self.convolutions, self.attention)\<close>.\<close>

record decoder =
  in_dim :: nat
  r :: nat
  embed_query_positions :: mat
  embed_keys_positions :: mat
  fc1 :: "vec \<Rightarrow> vec"
  layers :: "layer list"
  fc2 :: "vec \<Rightarrow> vec"
  max_decoder_steps :: nat

text \<open>The mutable state of a decoder instance: the flag, which function
  \<^verbatim>\<open>self.forward\<close> is bound to, and the input buffer of \<^verbatim>\<open>self.convolutions[i]\<close>.
  No convolution stands behind an index past the layers; nothing reads the buffer
  there, and clearing clears it too.\<close>

record decoder_state =
  is_inference_incremental :: bool
  forward_is_incremental :: bool
  input_buffer :: "nat \<Rightarrow> tensor option"

text \<open>\<^verbatim>\<open>start_fresh_sequence\<close> clears the buffer of every convolution of the decoder when
  the flag is set. (It also sets \<^verbatim>\<open>self.prev_state\<close>, which nothing reads.)\<close>

definition start_fresh_sequence :: "decoder \<Rightarrow> decoder_state \<Rightarrow> decoder_state" where
  "start_fresh_sequence d s =
     (if is_inference_incremental s
      then s\<lparr>input_buffer := (\<lambda>i. None)\<rparr>
      else s)"

definition start_incremental_inference ::
  "decoder \<Rightarrow> decoder_state \<Rightarrow> (error + unit) \<times> decoder_state" where
  "start_incremental_inference d s =
     (if is_inference_incremental s then (Inl AssertionError, s)
      else (Inr (),
            start_fresh_sequence d
              (s\<lparr>is_inference_incremental := True, forward_is_incremental := True\<rparr>)))"

definition stop_incremental_inference :: "decoder_state \<Rightarrow> decoder_state" where
  "stop_incremental_inference s =
     s\<lparr>forward_is_incremental := False, is_inference_incremental := False\<rparr>"

definition is_end_of_frames :: "tensor \<Rightarrow> real \<Rightarrow> bool" where
  "is_end_of_frames output eps = list_all (list_all (list_all (\<lambda>v. v \<le> eps))) output"

text \<open>The loop over the layers in \<^verbatim>\<open>_incremental_forward\<close>; \<open>i\<close> is the index of the
  layer, \<open>ave\<close> is \<^verbatim>\<open>ave_alignment\<close>. On an error the buffers written so far stay.\<close>

fun incremental_layers ::
  "tensor \<Rightarrow> tensor \<Rightarrow> tensor \<Rightarrow> nat \<Rightarrow> layer list \<Rightarrow> (nat \<Rightarrow> tensor option) \<Rightarrow> tensor
     \<Rightarrow> tensor option \<Rightarrow> (error + tensor \<times> tensor option) \<times> (nat \<Rightarrow> tensor option)" where
  "incremental_layers keys values frame_pos_embed i [] bufs x ave = (Inr (x, ave), bufs)"
| "incremental_layers keys values frame_pos_embed i (l # ls) bufs x ave =
     (let residual = (case proj l of None \<Rightarrow> x | Some p \<Rightarrow> Linear p x);
          cx = incremental_forward_conv (conv l) (bufs i) x;
          bufs = bufs(i := snd cx);
          x = map (map glu) (fst cx)
      in case attention l of
           None \<Rightarrow>
             incremental_layers keys values frame_pos_embed (Suc i) ls bufs
               (tscale (tadd x residual) (sqrt (1 / 2))) ave
         | Some a \<Rightarrow>
             (case attention_forward a (tadd x frame_pos_embed) (keys, values) None of
                Inl e \<Rightarrow> (Inl e, bufs)
              | Inr xa \<Rightarrow>
                  incremental_layers keys values frame_pos_embed (Suc i) ls bufs
                    (tscale (tadd (fst xa) residual) (sqrt (1 / 2)))
                    (Some (case ave of None \<Rightarrow> snd xa | Some av \<Rightarrow> tadd av av))))"

text \<open>One pass of the \<^verbatim>\<open>while True\<close> body from the lookup of \<^verbatim>\<open>frame_pos\<close> to
  \<^verbatim>\<open>output = self.fc2(x)\<close>.\<close>

definition decoder_step ::
  "decoder \<Rightarrow> tensor \<Rightarrow> tensor \<Rightarrow> nat list list \<Rightarrow> tensor \<Rightarrow> (nat \<Rightarrow> tensor option)
     \<Rightarrow> (error + tensor \<times> tensor) \<times> (nat \<Rightarrow> tensor option)" where
  "decoder_step d keys values frame_pos current_input bufs =
     (case embedding (embed_query_positions d) frame_pos of
        Inl e \<Rightarrow> (Inl e, bufs)
      | Inr frame_pos_embed \<Rightarrow>
          (case incremental_layers keys values frame_pos_embed 0 (layers d) bufs
                  (map (map (map relu)) (Linear (fc1 d) current_input)) None of
             (Inl e, bufs') \<Rightarrow> (Inl e, bufs')
           | (Inr (x, None), bufs') \<Rightarrow> (Inl AttributeError, bufs')
           | (Inr (x, Some ave_alignment), bufs') \<Rightarrow>
               (Inr (Linear (fc2 d) x, tdiv ave_alignment (real (length (layers d)))), bufs')))"

text \<open>The \<^verbatim>\<open>while True\<close> loop. The result holds \<^verbatim>\<open>outputs\<close>, \<^verbatim>\<open>alignments\<close> and whether
  the warning was printed.\<close>

function incremental_loop ::
  "decoder \<Rightarrow> tensor \<Rightarrow> tensor \<Rightarrow> nat \<Rightarrow> tensor \<Rightarrow> tensor list \<Rightarrow> tensor list
     \<Rightarrow> (nat \<Rightarrow> tensor option)
     \<Rightarrow> (error + tensor list \<times> tensor list \<times> bool) \<times> (nat \<Rightarrow> tensor option)" where
  "incremental_loop d keys values t current_input outputs alignments bufs =
     (if 0 < t \<and> outputs = [] then (Inl IndexError, bufs)
      else
        (case decoder_step d keys values (replicate (size0 keys) [t + 1])
                (if 0 < t then last outputs else current_input) bufs of
           (Inl e, bufs') \<Rightarrow> (Inl e, bufs')
         | (Inr (output, ave_alignment), bufs') \<Rightarrow>
             if 10 < t + 1 \<and> is_end_of_frames output (2 / 10)
             then (Inr (outputs @ [output], alignments @ [ave_alignment], False), bufs')
             else if max_decoder_steps d < t + 1
             then (Inr (outputs @ [output], alignments @ [ave_alignment], True), bufs')
             else incremental_loop d keys values (t + 1)
                    (if 0 < t then last outputs else current_input)
                    (outputs @ [output]) (alignments @ [ave_alignment]) bufs'))"
  by pat_completeness auto
termination
  by (relation "measure (\<lambda>(d, keys, values, t, rest). max_decoder_steps d + 1 - t)") auto

text \<open>The results of a list of computations, or the first exception.\<close>

fun collect :: "(error + 'a) list \<Rightarrow> error + 'a list" where
  "collect [] = Inr []"
| "collect (Inl e # xs) = Inl e"
| "collect (Inr v # xs) = (case collect xs of Inl e \<Rightarrow> Inl e | Inr vs \<Rightarrow> Inr (v # vs))"

text \<open>\<^verbatim>\<open>keys += text_pos_embed\<close> writes into the tensor the caller passed. The in-place
  addition broadcasts the embedding to the shape of the keys: along every axis the
  embedding has the length of the keys or the length 1, and its one element is then
  added to every element of the keys along that axis. It raises on any other shape,
  before anything is written. (A nested list keeps no shape under an axis of length 0:
  keys that are empty along an axis take every embedding there.)\<close>

definition iadd_vec :: "vec \<Rightarrow> vec \<Rightarrow> error + vec" where
  "iadd_vec k e =
     (if length e = length k then Inr (map2 (+) k e)
      else if length e = 1 then Inr (map (\<lambda>v. v + e ! 0) k)
      else Inl RuntimeError)"

definition iadd_mat :: "mat \<Rightarrow> mat \<Rightarrow> error + mat" where
  "iadd_mat k e =
     (if length e = length k then collect (map2 iadd_vec k e)
      else if length e = 1 then collect (map (\<lambda>kv. iadd_vec kv (e ! 0)) k)
      else Inl RuntimeError)"

definition iadd :: "tensor \<Rightarrow> tensor \<Rightarrow> error + tensor" where
  "iadd k e =
     (if length e = length k then collect (map2 iadd_mat k e)
      else if length e = 1 then collect (map (\<lambda>km. iadd_mat km (e ! 0)) k)
      else Inl RuntimeError)"

definition same_shape :: "tensor \<Rightarrow> tensor \<Rightarrow> bool" where
  "same_shape x y = (map (map length) x = map (map length) y)"

definition add_positions :: "mat \<Rightarrow> tensor \<Rightarrow> nat list list \<Rightarrow> error + tensor" where
  "add_positions w keys text_positions =
     (case embedding w text_positions of
        Inl e \<Rightarrow> Inl e
      | Inr text_pos_embed \<Rightarrow> iadd keys text_pos_embed)"

text \<open>\<^verbatim>\<open>x.squeeze(1)\<close> of a tensor whose time axis has one element, and
  \<^verbatim>\<open>torch.stack(xs).transpose(0, 1)\<close> of the steps, for a batch of \<open>b\<close> elements.\<close>

definition squeeze1 :: "tensor \<Rightarrow> mat" where
  "squeeze1 x = map concat x"

definition stack_steps :: "nat \<Rightarrow> mat list \<Rightarrow> tensor" where
  "stack_steps b xs = map (\<lambda>i. map (\<lambda>x. x ! i) xs) [0..<b]"

text \<open>\<^verbatim>\<open>_incremental_forward\<close>. The third component of the result is what the caller's
  two tensors \<^verbatim>\<open>keys, values\<close> hold after the call; no statement of the source writes to
  \<^verbatim>\<open>values\<close>.\<close>

definition incremental_forward ::
  "decoder \<Rightarrow> decoder_state \<Rightarrow> tensor \<times> tensor \<Rightarrow> nat list list
     \<Rightarrow> (error + tensor \<times> tensor \<times> bool) \<times> decoder_state \<times> tensor \<times> tensor" where
  "incremental_forward d s encoder_out text_positions =
     (case encoder_out of (keys, values) \<Rightarrow>
        if \<not> is_inference_incremental s then (Inl AssertionError, s, keys, values)
        else
          (case add_positions (embed_keys_positions d) keys text_positions of
             Inl e \<Rightarrow> (Inl e, s, keys, values)
           | Inr keys' \<Rightarrow>
               (case incremental_loop d keys' values 0
                       (replicate (size0 keys) [replicate (in_dim d * r d) 0]) [] []
                       (input_buffer s) of
                  (Inl e, bufs) \<Rightarrow> (Inl e, s\<lparr>input_buffer := bufs\<rparr>, keys', values)
                | (Inr (outputs, alignments, warned), bufs) \<Rightarrow>
                    (Inr (stack_steps (size0 keys) (map squeeze1 outputs),
                          stack_steps (size0 keys) (map squeeze1 alignments), warned),
                     s\<lparr>input_buffer := bufs\<rparr>, keys', values))))"

text \<open>The loop over the layers in the teacher-forced \<^verbatim>\<open>forward\<close>.\<close>

fun forward_layers ::
  "tensor \<Rightarrow> tensor \<Rightarrow> tensor option \<Rightarrow> bool list list option \<Rightarrow> layer list \<Rightarrow> tensor
     \<Rightarrow> tensor list \<Rightarrow> error + tensor \<times> tensor list" where
  "forward_layers keys values frame_pos_embed msk [] x alignments = Inr (x, alignments)"
| "forward_layers keys values frame_pos_embed msk (l # ls) x alignments =
     (let residual = (case proj l of None \<Rightarrow> x | Some p \<Rightarrow> Linear p x);
          x = conv_forward (conv l) x;
          x = remove_future_timesteps (conv l) x;
          x = map (map glu) x
      in case attention l of
           None \<Rightarrow>
             forward_layers keys values frame_pos_embed msk ls
               (tscale (tadd x residual) (sqrt (1 / 2))) alignments
         | Some a \<Rightarrow>
             (case attention_forward a
                     (case frame_pos_embed of None \<Rightarrow> x | Some e \<Rightarrow> tadd x e)
                     (keys, values) msk of
                Inl e \<Rightarrow> Inl e
              | Inr xa \<Rightarrow>
                  forward_layers keys values frame_pos_embed msk ls
                    (tscale (tadd (fst xa) residual) (sqrt (1 / 2)))
                    (alignments @ [snd xa])))"

text \<open>\<^verbatim>\<open>inputs.view(inputs.size(0), inputs.size(1) // self.r, -1)\<close> when the last axis is
  \<open>in_dim\<close>, then the assertion on the last axis.\<close>

definition size2 :: "tensor \<Rightarrow> nat" where
  "size2 x = (case x of [] \<Rightarrow> 0 | m # _ \<Rightarrow> size1 m)"

definition view_rows :: "nat \<Rightarrow> mat \<Rightarrow> error + mat" where
  "view_rows q m =
     (if q = 0 then Inl RuntimeError
      else if 0 < length (concat m) mod q then Inl RuntimeError
      else Inr (map (\<lambda>i. take (length (concat m) div q)
                           (drop (i * (length (concat m) div q)) (concat m))) [0..<q]))"

definition group_frames :: "decoder \<Rightarrow> tensor \<Rightarrow> error + tensor" where
  "group_frames d inputs =
     (case (if size2 inputs = in_dim d
            then (if r d = 0 then Inl ZeroDivisionError
                  else collect (map (view_rows (size1 inputs div r d)) inputs))
            else Inr inputs) of
        Inl e \<Rightarrow> Inl e
      | Inr grouped \<Rightarrow>
          if size2 grouped = in_dim d * r d then Inr grouped else Inl AssertionError)"

text \<open>The teacher-forced part of \<^verbatim>\<open>Decoder.forward\<close> (\<^verbatim>\<open>inputs\<close> given). The second
  component is what the caller's tensors \<^verbatim>\<open>keys, values\<close> hold after the call.\<close>

definition teacher_forced_forward ::
  "decoder \<Rightarrow> tensor \<times> tensor \<Rightarrow> tensor \<Rightarrow> nat list list option \<Rightarrow> nat list list option
     \<Rightarrow> int list option \<Rightarrow> (error + tensor \<times> tensor list) \<times> tensor \<times> tensor" where
  "teacher_forced_forward d encoder_out inputs text_positions frame_positions lengths =
     (case encoder_out of (keys, values) \<Rightarrow>
      (case group_frames d inputs of
         Inl e \<Rightarrow> (Inl e, keys, values)
       | Inr grouped \<Rightarrow>
      (case (case lengths of None \<Rightarrow> Inr None
             | Some ls \<Rightarrow> (case get_mask_from_lengths keys ls of
                              Inl e \<Rightarrow> Inl e | Inr m \<Rightarrow> Inr (Some m))) of
         Inl e \<Rightarrow> (Inl e, keys, values)
       | Inr msk \<Rightarrow>
      (case (case text_positions of None \<Rightarrow> Inr keys
             | Some tp \<Rightarrow> add_positions (embed_keys_positions d) keys tp) of
         Inl e \<Rightarrow> (Inl e, keys, values)
       | Inr keys' \<Rightarrow>
      (case (case frame_positions of None \<Rightarrow> Inr None
             | Some fp \<Rightarrow> (case embedding (embed_query_positions d) fp of
                              Inl e \<Rightarrow> Inl e | Inr emb \<Rightarrow> Inr (Some emb))) of
         Inl e \<Rightarrow> (Inl e, keys', values)
       | Inr frame_pos_embed \<Rightarrow>
      (case forward_layers keys' values frame_pos_embed msk (layers d)
              (map (map (map relu)) (Linear (fc1 d) grouped)) [] of
         Inl e \<Rightarrow> (Inl e, keys', values)
       | Inr (x, alignments) \<Rightarrow>
           if alignments = [] then (Inl RuntimeError, keys', values)
           else (Inr (Linear (fc2 d) x, alignments), keys', values)))))))"

text \<open>\<^verbatim>\<open>Decoder.forward\<close>: incremental generation when \<^verbatim>\<open>inputs\<close> is \<^verbatim>\<open>None\<close>. The result
  is the value or the exception, the state of the decoder afterwards and what the
  caller's tensors \<^verbatim>\<open>keys, values\<close> hold afterwards.\<close>

datatype decoder_output =
    Generated tensor tensor bool
  | TeacherForced tensor "tensor list"

definition forward ::
  "decoder \<Rightarrow> decoder_state \<Rightarrow> tensor \<times> tensor \<Rightarrow> tensor option \<Rightarrow> nat list list option
     \<Rightarrow> nat list list option \<Rightarrow> int list option
     \<Rightarrow> (error + decoder_output) \<times> decoder_state \<times> tensor \<times> tensor" where
  "forward d s encoder_out inputs text_positions frame_positions lengths =
     (case inputs of
        None \<Rightarrow>
          (case text_positions of
             None \<Rightarrow> (Inl AssertionError, s, encoder_out)
           | Some tp \<Rightarrow>
               (case start_incremental_inference d s of
                  (Inl e, s1) \<Rightarrow> (Inl e, s1, encoder_out)
                | (Inr u, s1) \<Rightarrow>
                    (case incremental_forward d s1 encoder_out tp of
                       (Inl e, s2, out') \<Rightarrow> (Inl e, s2, out')
                     | (Inr (outputs, alignments, warned), s2, out') \<Rightarrow>
                         (Inr (Generated outputs alignments warned),
                          stop_incremental_inference s2, out'))))
      | Some inp \<Rightarrow>
          (case teacher_forced_forward d encoder_out inp text_positions frame_positions
                  lengths of
             (Inl e, out') \<Rightarrow> (Inl e, s, out')
           | (Inr (x, alignments), out') \<Rightarrow> (Inr (TeacherForced x alignments), s, out')))"

section \<open>Running the layers frame by frame\<close>

text \<open>\<^verbatim>\<open>x[:, t:t+1, :]\<close>, the slice of a tensor at time step \<open>t\<close>.\<close>

definition time_slice :: "'a list list \<Rightarrow> nat \<Rightarrow> 'a list list" where
  "time_slice x t = map (\<lambda>xb. take 1 (drop t xb)) x"

text \<open>The layers of the decoder run in incremental mode on a sequence of frames, one
  frame at a time, each with the positional embedding of its step: the loop over the
  layers of \<^verbatim>\<open>_incremental_forward\<close> called once per frame, the buffers handed from one
  call to the next. The result is the list of the output frames.\<close>

fun incremental_run ::
  "tensor \<Rightarrow> tensor \<Rightarrow> layer list \<Rightarrow> (nat \<Rightarrow> tensor option) \<Rightarrow> (tensor \<times> tensor) list
     \<Rightarrow> error + tensor list" where
  "incremental_run keys values ls bufs [] = Inr []"
| "incremental_run keys values ls bufs (frame # frames) =
     (case incremental_layers keys values (snd frame) 0 ls bufs (fst frame) None of
        (Inl e, bufs') \<Rightarrow> Inl e
      | (Inr xa, bufs') \<Rightarrow>
          (case incremental_run keys values ls bufs' frames of
             Inl e \<Rightarrow> Inl e
           | Inr ys \<Rightarrow> Inr (fst xa # ys)))"

text \<open>What the buffer of a convolution holds when the frames before step \<open>t\<close> of the
  sequence \<open>x\<close> have gone through it (the last \<open>kernel_size - 1\<close> frames of the padded
  sequence), the window it convolves at step \<open>t\<close>, and the buffers of all layers in
  that state: the input of a layer is the output of the teacher-forced layer before.\<close>

definition buffer_at :: "conv1d \<Rightarrow> tensor \<Rightarrow> nat \<Rightarrow> tensor" where
  "buffer_at c x t = map (\<lambda>xb. drop t (padding c @ take t xb)) x"

definition window_at :: "conv1d \<Rightarrow> tensor \<Rightarrow> nat \<Rightarrow> tensor" where
  "window_at c x t = map (\<lambda>xb. drop t (padding c @ take t xb) @ take 1 (drop t xb)) x"

definition buffer_ok :: "conv1d \<Rightarrow> tensor option \<Rightarrow> tensor \<Rightarrow> nat \<Rightarrow> bool" where
  "buffer_ok c buf x t = (case buf of None \<Rightarrow> t = 0 | Some b \<Rightarrow> b = buffer_at c x t)"

definition rows_len :: "nat \<Rightarrow> 'a list list \<Rightarrow> bool" where
  "rows_len n x = list_all (\<lambda>xb. length xb = n) x"

fun buffers_at ::
  "tensor \<Rightarrow> tensor \<Rightarrow> tensor \<Rightarrow> nat \<Rightarrow> layer list \<Rightarrow> tensor \<Rightarrow> nat
     \<Rightarrow> (nat \<Rightarrow> tensor option) \<Rightarrow> bool" where
  "buffers_at keys vals fpe i [] x t bufs = True"
| "buffers_at keys vals fpe i (l # ls) x t bufs =
     (buffer_ok (conv l) (bufs i) x t
      \<and> (case forward_layers keys vals (Some fpe) None [l] x [] of
            Inl e \<Rightarrow> True
          | Inr xa \<Rightarrow> buffers_at keys vals fpe (Suc i) ls (fst xa) t bufs))"

section \<open>position_encoding_init\<close>

text \<open>The table is built in two passes, as in the source: first
  \<^verbatim>\<open>pos / np.power(10000, 2 * i / d_pos_vec)\<close> for every column \<open>i\<close> in
  \<^verbatim>\<open>range(d_pos_vec)\<close> (zeros in row 0), then the sine of the even columns and the
  cosine of the odd columns of the rows from 1 on. An empty table is a one-dimensional
  array, and the two-dimensional slice of it raises.\<close>

definition position_encoding_init :: "nat \<Rightarrow> nat \<Rightarrow> error + mat" where
  "position_encoding_init n_position d_pos_vec =
     (let position_enc =
            map (\<lambda>pos. if pos \<noteq> 0
                       then map (\<lambda>i. real pos / 10000 powr (2 * real i / real d_pos_vec))
                              [0..<d_pos_vec]
                       else replicate d_pos_vec 0)
              [0..<n_position]
      in if n_position = 0 then Inl IndexError
         else Inr (map (\<lambda>pos. if 1 \<le> pos
                               then map (\<lambda>i. if even i then sin (position_enc ! pos ! i)
                                               else cos (position_enc ! pos ! i))
                                      [0..<d_pos_vec]
                               else position_enc ! pos)
                     [0..<n_position]))"

section \<open>Small decoders for concrete runs\<close>

definition example_conv :: conv1d where
  "example_conv = \<lparr>kernel_size = 2, in_channels = 1, weight = (\<lambda>w. [sum_list (concat w), 0])\<rparr>"

definition uniform_attention :: attention_layer where
  "uniform_attention = \<lparr>in_projection = (\<lambda>v. [0]), out_projection = (\<lambda>v. [0])\<rparr>"

definition sharp_attention :: attention_layer where
  "sharp_attention = \<lparr>in_projection = (\<lambda>v. [1]), out_projection = (\<lambda>v. [0])\<rparr>"

definition example_layer :: layer where
  "example_layer = \<lparr>proj = None, conv = example_conv, attention = Some uniform_attention\<rparr>"

definition silent_decoder :: decoder where
  "silent_decoder =
     \<lparr>in_dim = 1, r = 1,
      embed_query_positions = replicate 16 [0], embed_keys_positions = replicate 16 [0],
      fc1 = (\<lambda>v. v),
      layers = [\<lparr>proj = None, conv = example_conv, attention = Some uniform_attention\<rparr>],
      fc2 = (\<lambda>v. [0]), max_decoder_steps = 200\<rparr>"

definition two_attention_decoder :: decoder where
  "two_attention_decoder =
     \<lparr>in_dim = 1, r = 1,
      embed_query_positions = replicate 16 [0], embed_keys_positions = replicate 16 [0],
      fc1 = (\<lambda>v. v),
      layers = [\<lparr>proj = None, conv = example_conv, attention = Some uniform_attention\<rparr>,
                \<lparr>proj = None, conv = example_conv, attention = Some sharp_attention\<rparr>],
      fc2 = (\<lambda>v. v), max_decoder_steps = 200\<rparr>"

definition shifting_decoder :: decoder where
  "shifting_decoder = silent_decoder\<lparr>embed_keys_positions := replicate 16 [1]\<rparr>"

definition echo_decoder :: decoder where
  "echo_decoder =
     silent_decoder\<lparr>fc2 := (\<lambda>v. map (\<lambda>a. a + 1) v), max_decoder_steps := 1\<rparr>"

definition late_failing_decoder :: decoder where
  "late_failing_decoder = shifting_decoder\<lparr>embed_query_positions := []\<rparr>"


definition positional_decoder :: decoder where
  "positional_decoder = echo_decoder\<lparr>embed_query_positions := [[0], [1], [2], [3]]\<rparr>"

definition idle_state :: decoder_state where
  "idle_state =
     \<lparr>is_inference_incremental = False, forward_is_incremental = False,
      input_buffer = (\<lambda>i. None)\<rparr>"

definition generating_state :: decoder_state where
  "generating_state = idle_state\<lparr>is_inference_incremental := True\<rparr>"

section \<open>The padding mask\<close>

lemma length_fill_prefix: "length (fill_prefix l row) = length row"
  by (simp add: fill_prefix_def slice_stop_def)

lemma fill_prefix_zero_row:
  assumes "0 \<le> l" and "j < n"
  shows "fill_prefix l (replicate n False) ! j = (int j < l)"
proof (cases "j < slice_stop l n")
  case True
  then show ?thesis using assms
    by (auto simp: fill_prefix_def nth_append slice_stop_def)
next
  case False
  then show ?thesis using assms
    by (auto simp: fill_prefix_def nth_append slice_stop_def)
qed

lemma mask_rows_ok:
  assumes "idx + length ls \<le> length msk"
  shows "\<exists>m. mask_rows idx ls msk = Inr m \<and> length m = length msk
           \<and> (\<forall>i < length msk.
                 m ! i = (if idx \<le> i \<and> i < idx + length ls
                          then fill_prefix (ls ! (i - idx)) (msk ! i) else msk ! i))"
  using assms
proof (induction ls arbitrary: idx msk)
  case Nil
  then show ?case by auto
next
  case (Cons l ls)
  let ?msk' = "msk[idx := fill_prefix l (msk ! idx)]"
  have idx: "idx < length msk" using Cons.prems by simp
  have "Suc idx + length ls \<le> length ?msk'" using Cons.prems by simp
  from Cons.IH[OF this] obtain m where
    m: "mask_rows (Suc idx) ls ?msk' = Inr m" "length m = length ?msk'"
       "\<forall>i < length ?msk'.
          m ! i = (if Suc idx \<le> i \<and> i < Suc idx + length ls
                   then fill_prefix (ls ! (i - Suc idx)) (?msk' ! i) else ?msk' ! i)"
    by blast
  have "\<forall>i < length msk.
          m ! i = (if idx \<le> i \<and> i < idx + length (l # ls)
                   then fill_prefix ((l # ls) ! (i - idx)) (msk ! i) else msk ! i)"
  proof (intro allI impI)
    fix i assume i: "i < length msk"
    show "m ! i = (if idx \<le> i \<and> i < idx + length (l # ls)
                   then fill_prefix ((l # ls) ! (i - idx)) (msk ! i) else msk ! i)"
    proof (cases "i = idx")
      case True
      then show ?thesis using m(3) i by simp
    next
      case False
      then show ?thesis using m(3) i
        by (auto simp: nth_Cons' Suc_diff_Suc)
    qed
  qed
  then show ?case using m(1,2) idx by simp
qed

text \<open>
  C10. For a memory tensor with at least as many rows as there are lengths, and lengths
  that are not negative, \<open>get_mask_from_lengths\<close> returns a mask of the memory's
  (batch, max_time) shape whose entry (i, j) is true exactly when \<open>j \<ge> lengths[i]\<close>:
  the padding positions past the true length of sequence i.
\<close>

theorem get_mask_from_lengths_marks_padding:
  assumes "length memory_lengths \<le> size0 memory"
    and "list_all (\<lambda>l. 0 \<le> l) memory_lengths"
  shows "\<exists>msk. get_mask_from_lengths memory memory_lengths = Inr msk
           \<and> length msk = size0 memory
           \<and> (\<forall>i < length memory_lengths. \<forall>j < size1 memory.
                  length (msk ! i) = size1 memory
                  \<and> (msk ! i ! j) = (memory_lengths ! i \<le> int j))"
proof -
  let ?z = "replicate (size0 memory) (replicate (size1 memory) False)"
  have "0 + length memory_lengths \<le> length ?z" using assms(1) by simp
  from mask_rows_ok[OF this] obtain m where
    m: "mask_rows 0 memory_lengths ?z = Inr m" "length m = length ?z"
       "\<forall>i < length ?z.
          m ! i = (if 0 \<le> i \<and> i < 0 + length memory_lengths
                   then fill_prefix (memory_lengths ! (i - 0)) (?z ! i) else ?z ! i)"
    by blast
  have res: "get_mask_from_lengths memory memory_lengths = Inr (map (map Not) m)"
    using m(1) by (simp add: get_mask_from_lengths_def)
  have "\<forall>i < length memory_lengths. \<forall>j < size1 memory.
          length (map (map Not) m ! i) = size1 memory
          \<and> (map (map Not) m ! i ! j) = (memory_lengths ! i \<le> int j)"
  proof (intro allI impI)
    fix i j assume i: "i < length memory_lengths" and j: "j < size1 memory"
    have i': "i < size0 memory" using i assms(1) by simp
    have nonneg: "0 \<le> memory_lengths ! i"
      using assms(2) i by (simp add: list_all_length)
    have row: "m ! i = fill_prefix (memory_lengths ! i) (replicate (size1 memory) False)"
      using m(3) i i' by simp
    have len: "length (m ! i) = size1 memory"
      using row by (simp add: length_fill_prefix)
    have "m ! i ! j = (int j < memory_lengths ! i)"
      using row fill_prefix_zero_row[OF nonneg j] by simp
    then show "length (map (map Not) m ! i) = size1 memory
          \<and> (map (map Not) m ! i ! j) = (memory_lengths ! i \<le> int j)"
      using len i' j m(2) by (auto simp: not_less)
  qed
  then show ?thesis using res m(2) by simp
qed

theorem get_mask_from_lengths_marks_padding_witness:
  "get_mask_from_lengths [[[0], [0], [0]], [[0], [0], [0]]] [2, 3]
     = Inr [[False, False, True], [False, False, False]]"
proof -
  have h1: "length [2, 3 :: int] \<le> size0 [[[0], [0], [0]], [[0], [0], [0 :: real]]]"
    by (simp add: size0_def)
  have h2: "list_all (\<lambda>l. 0 \<le> l) [2, 3 :: int]" by simp
  from get_mask_from_lengths_marks_padding[OF h1 h2]
  obtain msk where
    "get_mask_from_lengths [[[0], [0], [0]], [[0], [0], [0]]] [2, 3] = Inr msk" by blast
  then show ?thesis
    by (simp add: get_mask_from_lengths_def size0_def size1_def fill_prefix_def slice_stop_def)
qed

section \<open>Concrete runs\<close>

lemmas example_defs = example_conv_def uniform_attention_def silent_decoder_def
  idle_state_def

lemmas numeric_defs = vadd_def tadd_def tscale_def tdiv_def Linear_def relu_def sigmoid_def
  glu_def dot_def embedding_def zero_frame_def padding_def incremental_forward_conv_def
  bmm_keys_def masked_fill_def exp_score_def softmax_def nan_row_def weighted_sum_def
  attention_forward_def size0_def size1_def is_end_of_frames_def decoder_step_def

lemmas forward_defs = forward_def incremental_forward_def start_incremental_inference_def
  start_fresh_sequence_def stop_incremental_inference_def add_positions_def iadd_def
  iadd_mat_def iadd_vec_def
  squeeze1_def stack_steps_def

text \<open>A generation that fails (here a text position outside the table) leaves the flag
  set: \<^verbatim>\<open>_stop_incremental_inference\<close> is not reached.\<close>

lemma failed_run_state:
  "fst (snd (forward silent_decoder idle_state ([[[0]]], [[[0]]]) None (Some [[99]]) None None))
     = idle_state\<lparr>is_inference_incremental := True, forward_is_incremental := True\<rparr>"
  by (simp add: example_defs forward_defs embedding_def)

section \<open>Re-entrant start\<close>

text \<open>
  C8. Starting incremental inference on a decoder whose flag says that incremental
  inference is active raises the assertion error before anything is written: the state
  is the one before the call. \<^verbatim>\<open>Decoder.forward\<close> does not catch it: the call with
  \<^verbatim>\<open>inputs = None\<close> ends with the same error, the state and the encoder output
  untouched, and nothing is generated.
\<close>

theorem reentrant_start_fails:
  assumes "is_inference_incremental s"
  shows "start_incremental_inference d s = (Inl AssertionError, s)
       \<and> forward d s encoder_out None (Some text_positions) frame_positions lengths
           = (Inl AssertionError, s, encoder_out)"
  using assms by (simp add: start_incremental_inference_def forward_def)

theorem reentrant_start_fails_witness:
  "is_inference_incremental
     (fst (snd (forward silent_decoder idle_state ([[[0]]], [[[0]]]) None (Some [[99]]) None None)))
   \<and> forward silent_decoder
       (fst (snd (forward silent_decoder idle_state ([[[0]]], [[[0]]]) None (Some [[99]]) None None)))
       ([[[0]]], [[[0]]]) None (Some [[1]]) None None
     = (Inl AssertionError,
        idle_state\<lparr>is_inference_incremental := True, forward_is_incremental := True\<rparr>,
        ([[[0]]], [[[0]]]))"
proof -
  let ?s = "fst (snd (forward silent_decoder idle_state ([[[0]]], [[[0]]]) None (Some [[99]])
                        None None))"
  have h: "is_inference_incremental ?s"
    by (simp add: failed_run_state)
  from reentrant_start_fails[OF h, of silent_decoder "([[[0]]], [[[0]]])" "[[1]]" None None]
  show ?thesis using h by (simp add: failed_run_state)
qed

section \<open>The averaged alignment of a step\<close>

text \<open>Once \<^verbatim>\<open>ave_alignment\<close> is set, a later attention layer doubles it
  (\<^verbatim>\<open>ave_alignment + ave_alignment\<close>) and its own alignment is dropped.\<close>

lemma ave_alignment_ignores_later_layers:
  "fst (incremental_layers keys values fpe i ls bufs x (Some av)) = Inr (x', ave')
   \<Longrightarrow> ave' = Some (((\<lambda>a. tadd a a) ^^ length (filter (\<lambda>l. attention l \<noteq> None) ls)) av)"
proof (induction ls arbitrary: i bufs x av)
  case Nil
  then show ?case by simp
next
  case (Cons l ls)
  then show ?case
    by (auto simp del: funpow.simps simp add: Let_def funpow_Suc_right
        split: option.splits sum.splits)
qed

text \<open>
  C1. The claim: with more than one attention layer, the alignment of a step is the
  mean of the layers' alignments. The code at a decoder with two attention layers, two
  text positions and one batch element: the first layer's alignment is (1/2, 1/2), the
  second layer's is (3/4, 1/4), and the step returns (1/2, 1/2), the first layer's
  alignment doubled and divided by two; the mean is (5/8, 3/8).
\<close>

theorem ave_alignment_repeats_first_layer:
  "map_sum id snd (fst (decoder_step two_attention_decoder [[[ln 3], [0]]] [[[0], [0]]] [[1]]
                          [[[0]]] (\<lambda>i. None)))
     = Inr [[[1 / 2, 1 / 2]]]
   \<and> map_sum id snd (attention_forward uniform_attention [[[0]]]
                       ([[[ln 3], [0]]], [[[0], [0]]]) None)
     = Inr [[[1 / 2, 1 / 2]]]
   \<and> map_sum id snd (attention_forward sharp_attention [[[0]]]
                       ([[[ln 3], [0]]], [[[0], [0]]]) None)
     = Inr [[[3 / 4, 1 / 4]]]"
  by (simp add: example_defs sharp_attention_def two_attention_decoder_def numeric_defs Let_def)

section \<open>When a step returns\<close>

text \<open>Without a mask no row of scores is minus infinity everywhere, so an attention layer
  returns whenever there is a text position; the layers of a step return then, with an
  alignment when one of them has attention; and the step returns when, besides, the
  positions are rows of the query table.\<close>

lemma not_nan_row_Some: "\<not> nan_row (map Some row)"
  by (cases row) (simp_all add: nan_row_def)

lemma no_nan_unmasked: "\<not> list_ex (list_ex nan_row) (masked_fill x None)"
  by (simp add: masked_fill_def list_ex_iff not_nan_row_Some)




section \<open>The generation loop\<close>

declare incremental_loop.simps [simp del]

lemma incremental_loop_Inr:
  assumes "incremental_loop d keys vals t ci outputs alignments bufs = (Inr res, bufs')"
  shows "\<exists>outp ave b1.
           decoder_step d keys vals (replicate (size0 keys) [t + 1])
             (if 0 < t then last outputs else ci) bufs = (Inr (outp, ave), b1)
         \<and> \<not> (0 < t \<and> outputs = [])
         \<and> (if 10 < t + 1 \<and> is_end_of_frames outp (2 / 10)
            then res = (outputs @ [outp], alignments @ [ave], False) \<and> bufs' = b1
            else if max_decoder_steps d < t + 1
            then res = (outputs @ [outp], alignments @ [ave], True) \<and> bufs' = b1
            else incremental_loop d keys vals (t + 1) (if 0 < t then last outputs else ci)
                   (outputs @ [outp]) (alignments @ [ave]) b1 = (Inr res, bufs'))"
  using assms
  by (subst (asm) incremental_loop.simps)
     (auto split: if_splits prod.splits sum.splits)

lemma incremental_loop_shape:
  assumes "incremental_loop d keys vals t ci outputs alignments bufs
             = (Inr (outs, als, warned), bufs')"
    and "length outputs = t" and "length alignments = t"
  shows "t < length outs \<and> length als = length outs
       \<and> take t outs = outputs \<and> take t als = alignments"
  using assms
proof (induction d keys vals t ci outputs alignments bufs rule: incremental_loop.induct)
  case (1 d keys vals t ci outputs alignments bufs)
  from incremental_loop_Inr[OF "1.prems"(1)] obtain outp ave b1 where
    step: "decoder_step d keys vals (replicate (size0 keys) [t + 1])
             (if 0 < t then last outputs else ci) bufs = (Inr (outp, ave), b1)"
    and ne: "\<not> (0 < t \<and> outputs = [])"
    and rest: "if 10 < t + 1 \<and> is_end_of_frames outp (2 / 10)
            then (outs, als, warned) = (outputs @ [outp], alignments @ [ave], False) \<and> bufs' = b1
            else if max_decoder_steps d < t + 1
            then (outs, als, warned) = (outputs @ [outp], alignments @ [ave], True) \<and> bufs' = b1
            else incremental_loop d keys vals (t + 1) (if 0 < t then last outputs else ci)
                   (outputs @ [outp]) (alignments @ [ave]) b1 = (Inr (outs, als, warned), bufs')"
    by blast
  show ?case
  proof (cases "(10 < t + 1 \<and> is_end_of_frames outp (2 / 10)) \<or> max_decoder_steps d < t + 1")
    case True
    then have "outs = outputs @ [outp]" "als = alignments @ [ave]"
      using rest by (auto split: if_splits)
    then show ?thesis using "1.prems"(2,3) by simp
  next
    case False
    then have rec: "incremental_loop d keys vals (t + 1) (if 0 < t then last outputs else ci)
                   (outputs @ [outp]) (alignments @ [ave]) b1 = (Inr (outs, als, warned), bufs')"
      using rest by (auto split: if_splits)
    have ih: "t + 1 < length outs \<and> length als = length outs
       \<and> take (t + 1) outs = outputs @ [outp] \<and> take (t + 1) als = alignments @ [ave]"
      using False "1.prems"(2,3)
      by (intro "1.IH"[OF ne step[symmetric] refl refl _ _ rec]) auto
    have "take t (take (t + 1) outs) = outputs" "take t (take (t + 1) als) = alignments"
      using ih "1.prems"(2,3) by simp_all
    then show ?thesis using ih by (simp add: min_def)
  qed
qed


lemma incremental_loop_trace:
  assumes "incremental_loop d keys vals t ci outputs alignments bufs
             = (Inr (outs, als, warned), bufs')"
    and "length outputs = t" and "length alignments = t"
  shows "\<exists>B. B t = bufs \<and> B (length outs) = bufs'
       \<and> (\<forall>k. t \<le> k \<and> k < length outs \<longrightarrow>
             decoder_step d keys vals (replicate (size0 keys) [k + 1])
               (if 0 < k then outs ! (k - 1) else ci) (B k)
             = (Inr (outs ! k, als ! k), B (k + 1)))"
  using assms
proof (induction d keys vals t ci outputs alignments bufs rule: incremental_loop.induct)
  case (1 d keys vals t ci outputs alignments bufs)
  from incremental_loop_Inr[OF "1.prems"(1)] obtain outp ave b1 where
    step: "decoder_step d keys vals (replicate (size0 keys) [t + 1])
             (if 0 < t then last outputs else ci) bufs = (Inr (outp, ave), b1)"
    and ne: "\<not> (0 < t \<and> outputs = [])"
    and rest: "if 10 < t + 1 \<and> is_end_of_frames outp (2 / 10)
            then (outs, als, warned) = (outputs @ [outp], alignments @ [ave], False) \<and> bufs' = b1
            else if max_decoder_steps d < t + 1
            then (outs, als, warned) = (outputs @ [outp], alignments @ [ave], True) \<and> bufs' = b1
            else incremental_loop d keys vals (t + 1) (if 0 < t then last outputs else ci)
                   (outputs @ [outp]) (alignments @ [ave]) b1 = (Inr (outs, als, warned), bufs')"
    by blast
  from incremental_loop_shape[OF "1.prems"] have
    shape: "t < length outs" "length als = length outs" "take t outs = outputs"
      "take t als = alignments"
    by simp_all
  have prev: "0 < t \<Longrightarrow> outs ! (t - 1) = last outputs"
  proof -
    assume "0 < t"
    then have "outputs ! (t - 1) = take t outs ! (t - 1)" using shape(3) by simp
    then show ?thesis using \<open>0 < t\<close> "1.prems"(2) ne by (simp add: last_conv_nth)
  qed
  show ?case
  proof (cases "(10 < t + 1 \<and> is_end_of_frames outp (2 / 10)) \<or> max_decoder_steps d < t + 1")
    case True
    then have eqs: "outs = outputs @ [outp]" "als = alignments @ [ave]" "bufs' = b1"
      using rest by (auto split: if_splits)
    let ?B = "\<lambda>k. if k = t then bufs else b1"
    have "decoder_step d keys vals (replicate (size0 keys) [t + 1])
               (if 0 < t then outs ! (t - 1) else ci) (?B t)
             = (Inr (outs ! t, als ! t), ?B (t + 1))"
      using step prev eqs "1.prems"(2,3) by (cases "0 < t") (auto simp: nth_append)
    moreover have "length outs = t + 1" using eqs "1.prems"(2) by simp
    ultimately have "?B t = bufs \<and> ?B (length outs) = bufs'
       \<and> (\<forall>k. t \<le> k \<and> k < length outs \<longrightarrow>
             decoder_step d keys vals (replicate (size0 keys) [k + 1])
               (if 0 < k then outs ! (k - 1) else ci) (?B k)
             = (Inr (outs ! k, als ! k), ?B (k + 1)))"
      using eqs(3) by (auto simp: le_less_Suc_eq)
    then show ?thesis by (rule exI[of _ ?B])
  next
    case False
    then have rec: "incremental_loop d keys vals (t + 1) (if 0 < t then last outputs else ci)
                   (outputs @ [outp]) (alignments @ [ave]) b1 = (Inr (outs, als, warned), bufs')"
      using rest by (auto split: if_splits)
    have l1: "length (outputs @ [outp]) = t + 1" "length (alignments @ [ave]) = t + 1"
      using "1.prems"(2,3) by simp_all
    from incremental_loop_shape[OF rec l1] have
      shape': "t + 1 < length outs" "take (t + 1) outs = outputs @ [outp]"
        "take (t + 1) als = alignments @ [ave]"
      by simp_all
    have at_t: "outs ! t = outp" "als ! t = ave"
    proof -
      have "take (t + 1) outs ! t = outp" using shape'(2) "1.prems"(2) by (simp add: nth_append)
      then show "outs ! t = outp" by simp
      have "take (t + 1) als ! t = ave" using shape'(3) "1.prems"(3) by (simp add: nth_append)
      then show "als ! t = ave" by simp
    qed
    have "\<exists>B. B (t + 1) = b1 \<and> B (length outs) = bufs'
       \<and> (\<forall>k. t + 1 \<le> k \<and> k < length outs \<longrightarrow>
             decoder_step d keys vals (replicate (size0 keys) [k + 1])
               (if 0 < k then outs ! (k - 1) else (if 0 < t then last outputs else ci)) (B k)
             = (Inr (outs ! k, als ! k), B (k + 1)))"
      using False l1
      by (intro "1.IH"[OF ne step[symmetric] refl refl _ _ rec]) auto
    then obtain B where B: "B (t + 1) = b1" "B (length outs) = bufs'"
      "\<forall>k. t + 1 \<le> k \<and> k < length outs \<longrightarrow>
             decoder_step d keys vals (replicate (size0 keys) [k + 1])
               (if 0 < k then outs ! (k - 1) else (if 0 < t then last outputs else ci)) (B k)
             = (Inr (outs ! k, als ! k), B (k + 1))"
      by blast
    let ?B = "B(t := bufs)"
    have "\<forall>k. t \<le> k \<and> k < length outs \<longrightarrow>
             decoder_step d keys vals (replicate (size0 keys) [k + 1])
               (if 0 < k then outs ! (k - 1) else ci) (?B k)
             = (Inr (outs ! k, als ! k), ?B (k + 1))"
    proof (intro allI impI)
      fix k assume k: "t \<le> k \<and> k < length outs"
      show "decoder_step d keys vals (replicate (size0 keys) [k + 1])
               (if 0 < k then outs ! (k - 1) else ci) (?B k)
             = (Inr (outs ! k, als ! k), ?B (k + 1))"
      proof (cases "k = t")
        case True
        then show ?thesis using step prev at_t B(1) by (cases "0 < t") auto
      next
        case False
        then have "t + 1 \<le> k \<and> k < length outs" "0 < k" using k by auto
        then show ?thesis using B(3) False by simp
      qed
    qed
    moreover have "?B t = bufs" "?B (length outs) = bufs'"
      using B(2) shape'(1) by simp_all
    ultimately have "?B t = bufs \<and> ?B (length outs) = bufs'
       \<and> (\<forall>k. t \<le> k \<and> k < length outs \<longrightarrow>
             decoder_step d keys vals (replicate (size0 keys) [k + 1])
               (if 0 < k then outs ! (k - 1) else ci) (?B k)
             = (Inr (outs ! k, als ! k), ?B (k + 1)))"
      by simp
    then show ?thesis by (rule exI[of _ ?B])
  qed
qed








section \<open>Autoregression\<close>

text \<open>A step that returns has looked its positions up in the query table and run the
  layers on the rows found; a column of one position finds one row.\<close>

lemma decoder_step_Inr:
  assumes "decoder_step d keys vals frame_pos ci b = (Inr (outp, al), b')"
  shows "\<exists>fpe x ave.
           embedding (embed_query_positions d) frame_pos = Inr fpe
         \<and> incremental_layers keys vals fpe 0 (layers d) b
             (map (map (map relu)) (Linear (fc1 d) ci)) None = (Inr (x, Some ave), b')
         \<and> outp = Linear (fc2 d) x
         \<and> al = tdiv ave (real (length (layers d)))"
  using assms
  by (auto simp: decoder_step_def split: sum.splits prod.splits option.splits)

lemma embedding_replicate:
  "embedding w (replicate n [i]) = Inr fpe \<Longrightarrow> fpe = replicate n [w ! i]"
  by (auto simp: embedding_def split: if_splits)

text \<open>
  C9. A successful \<^verbatim>\<open>_incremental_forward\<close> returns the stacked frames and alignments of
  a run of the per-step block in which step \<open>t\<close> (counted from 0) looks up position
  \<open>t + 1\<close> in the query table for every batch element and runs the layers with row
  \<open>t + 1\<close> of the table as the embedding of the frame position, takes the all-zero
  tensor of shape (batch, 1, in_dim * r) as input when \<open>t = 0\<close> and the frame generated at
  step \<open>t - 1\<close> otherwise, and starts from the buffers the step before left (\<open>B t\<close>);
  the frame of the step is \<open>fc2\<close> of what the layers return, its alignment their summed
  alignment divided by the number of layers.
\<close>

theorem generation_is_autoregressive:
  assumes "fst (incremental_forward d s (keys, vals) text_positions)
             = Inr (outputs, alignments, warned)"
  shows "\<exists>keys' outs als B.
           add_positions (embed_keys_positions d) keys text_positions = Inr keys'
         \<and> outputs = stack_steps (size0 keys) (map squeeze1 outs)
         \<and> alignments = stack_steps (size0 keys) (map squeeze1 als)
         \<and> B 0 = input_buffer s
         \<and> B (length outs) = input_buffer (fst (snd (incremental_forward d s (keys, vals) text_positions)))
         \<and> (\<forall>t. t < length outs \<longrightarrow>
               decoder_step d keys' vals (replicate (size0 keys') [t + 1])
                 (if t = 0 then replicate (size0 keys) [replicate (in_dim d * r d) 0]
                  else outs ! (t - 1))
                 (B t)
               = (Inr (outs ! t, als ! t), B (t + 1))
             \<and> embedding (embed_query_positions d) (replicate (size0 keys') [t + 1])
               = Inr (replicate (size0 keys') [embed_query_positions d ! (t + 1)])
             \<and> (\<exists>x ave.
                   incremental_layers keys' vals
                     (replicate (size0 keys') [embed_query_positions d ! (t + 1)])
                     0 (layers d) (B t)
                     (map (map (map relu))
                        (Linear (fc1 d)
                           (if t = 0 then replicate (size0 keys) [replicate (in_dim d * r d) 0]
                            else outs ! (t - 1))))
                     None
                   = (Inr (x, Some ave), B (t + 1))
                 \<and> outs ! t = Linear (fc2 d) x
                 \<and> als ! t = tdiv ave (real (length (layers d)))))"
proof -
  from assms obtain keys' where
    kp: "add_positions (embed_keys_positions d) keys text_positions = Inr keys'"
    by (auto simp: incremental_forward_def split: if_splits sum.splits)
  let ?z = "replicate (size0 keys) [replicate (in_dim d * r d) 0]"
  from assms kp obtain outs als bufs' where
    run: "incremental_loop d keys' vals 0 ?z [] [] (input_buffer s)
            = (Inr (outs, als, warned), bufs')"
    and res: "outputs = stack_steps (size0 keys) (map squeeze1 outs)"
      "alignments = stack_steps (size0 keys) (map squeeze1 als)"
    and st: "input_buffer (fst (snd (incremental_forward d s (keys, vals) text_positions))) = bufs'"
    by (auto simp: incremental_forward_def split: if_splits sum.splits prod.splits)
  from incremental_loop_trace[OF run] obtain B where
    B: "B 0 = input_buffer s" "B (length outs) = bufs'"
      "\<forall>k. 0 \<le> k \<and> k < length outs \<longrightarrow>
             decoder_step d keys' vals (replicate (size0 keys') [k + 1])
               (if 0 < k then outs ! (k - 1) else ?z) (B k)
             = (Inr (outs ! k, als ! k), B (k + 1))"
    by auto
  let ?step = "\<lambda>t.
       decoder_step d keys' vals (replicate (size0 keys') [t + 1])
         (if t = 0 then ?z else outs ! (t - 1)) (B t)
       = (Inr (outs ! t, als ! t), B (t + 1))
     \<and> embedding (embed_query_positions d) (replicate (size0 keys') [t + 1])
       = Inr (replicate (size0 keys') [embed_query_positions d ! (t + 1)])
     \<and> (\<exists>x ave.
           incremental_layers keys' vals
             (replicate (size0 keys') [embed_query_positions d ! (t + 1)])
             0 (layers d) (B t)
             (map (map (map relu))
                (Linear (fc1 d) (if t = 0 then ?z else outs ! (t - 1))))
             None
           = (Inr (x, Some ave), B (t + 1))
         \<and> outs ! t = Linear (fc2 d) x
         \<and> als ! t = tdiv ave (real (length (layers d))))"
  have steps: "\<forall>t. t < length outs \<longrightarrow> ?step t"
  proof (intro allI impI)
    fix t assume "t < length outs"
    then have step: "decoder_step d keys' vals (replicate (size0 keys') [t + 1])
                 (if t = 0 then ?z else outs ! (t - 1)) (B t)
               = (Inr (outs ! t, als ! t), B (t + 1))"
      using B(3)[rule_format, of t] by (cases "t = 0") simp_all
    from decoder_step_Inr[OF step] obtain fpe x ave where
      e: "embedding (embed_query_positions d) (replicate (size0 keys') [t + 1]) = Inr fpe"
      and l: "incremental_layers keys' vals fpe 0 (layers d) (B t)
                (map (map (map relu)) (Linear (fc1 d) (if t = 0 then ?z else outs ! (t - 1))))
                None = (Inr (x, Some ave), B (t + 1))"
      and o: "outs ! t = Linear (fc2 d) x" "als ! t = tdiv ave (real (length (layers d)))"
      by blast
    have fpe: "fpe = replicate (size0 keys') [embed_query_positions d ! (t + 1)]"
      by (rule embedding_replicate[OF e])
    show "?step t"
      using step e l o unfolding fpe by (intro conjI exI[of _ x] exI[of _ ave])
  qed
  have "add_positions (embed_keys_positions d) keys text_positions = Inr keys'
         \<and> outputs = stack_steps (size0 keys) (map squeeze1 outs)
         \<and> alignments = stack_steps (size0 keys) (map squeeze1 als)
         \<and> B 0 = input_buffer s
         \<and> B (length outs) = input_buffer (fst (snd (incremental_forward d s (keys, vals) text_positions)))
         \<and> (\<forall>t. t < length outs \<longrightarrow> ?step t)"
    using kp res st B(1,2) steps by (intro conjI) simp_all
  then show ?thesis
    by (intro exI[of _ keys'] exI[of _ outs] exI[of _ als] exI[of _ B])
qed

text \<open>A run over a query table with a different row at every position: the row of the
  step goes through the residual of the attention into the frame.\<close>

lemma positional_run:
  "fst (incremental_forward positional_decoder generating_state ([[[0]]], [[[0]]]) [[1]])
     = Inr ([[[3 / 2], [(11 * sqrt (1 / 2) / 4 + 3 / 2) * sqrt (1 / 2) + 1]]],
            [[[1], [1]]], True)"
  by (simp add: incremental_loop.simps example_defs echo_decoder_def positional_decoder_def
      generating_state_def numeric_defs forward_defs Let_def)

theorem generation_is_autoregressive_witness:
  "fst (incremental_forward positional_decoder generating_state ([[[0]]], [[[0]]]) [[1]])
     = Inr ([[[3 / 2], [(11 * sqrt (1 / 2) / 4 + 3 / 2) * sqrt (1 / 2) + 1]]],
            [[[1], [1]]], True)
   \<and> embed_query_positions positional_decoder = [[0], [1], [2], [3]]
   \<and> (\<exists>keys' outs als B.
           add_positions (embed_keys_positions positional_decoder) [[[0]]] [[1]] = Inr keys'
         \<and> [[[3 / 2], [(11 * sqrt (1 / 2) / 4 + 3 / 2) * sqrt (1 / 2) + 1]]]
             = stack_steps (size0 [[[0 :: real]]]) (map squeeze1 outs)
         \<and> [[[1], [1]]] = stack_steps (size0 [[[0 :: real]]]) (map squeeze1 als)
         \<and> B 0 = input_buffer generating_state
         \<and> B (length outs)
             = input_buffer (fst (snd (incremental_forward positional_decoder generating_state
                                         ([[[0]]], [[[0]]]) [[1]])))
         \<and> (\<forall>t. t < length outs \<longrightarrow>
               decoder_step positional_decoder keys' [[[0]]] (replicate (size0 keys') [t + 1])
                 (if t = 0
                  then replicate (size0 [[[0 :: real]]])
                         [replicate (in_dim positional_decoder * r positional_decoder) 0]
                  else outs ! (t - 1))
                 (B t)
               = (Inr (outs ! t, als ! t), B (t + 1))
             \<and> embedding (embed_query_positions positional_decoder)
                 (replicate (size0 keys') [t + 1])
               = Inr (replicate (size0 keys') [embed_query_positions positional_decoder ! (t + 1)])
             \<and> (\<exists>x ave.
                   incremental_layers keys' [[[0]]]
                     (replicate (size0 keys')
                        [embed_query_positions positional_decoder ! (t + 1)])
                     0 (layers positional_decoder) (B t)
                     (map (map (map relu))
                        (Linear (fc1 positional_decoder)
                           (if t = 0
                            then replicate (size0 [[[0 :: real]]])
                                   [replicate (in_dim positional_decoder * r positional_decoder) 0]
                            else outs ! (t - 1))))
                     None
                   = (Inr (x, Some ave), B (t + 1))
                 \<and> outs ! t = Linear (fc2 positional_decoder) x
                 \<and> als ! t = tdiv ave (real (length (layers positional_decoder))))))"
proof (intro conjI)
  show "fst (incremental_forward positional_decoder generating_state ([[[0]]], [[[0]]]) [[1]])
     = Inr ([[[3 / 2], [(11 * sqrt (1 / 2) / 4 + 3 / 2) * sqrt (1 / 2) + 1]]],
            [[[1], [1]]], True)"
    by (rule positional_run)
  show "embed_query_positions positional_decoder = [[0], [1], [2], [3]]"
    by (simp add: positional_decoder_def)
qed (rule generation_is_autoregressive[OF positional_run])

section \<open>The buffers of the convolutions\<close>

text \<open>After a generation that returned, the decoder is idle again and the buffer of the
  first convolution still holds the last frame it was fed:
  \<^verbatim>\<open>_stop_incremental_inference\<close> restores \<^verbatim>\<open>forward\<close> and resets the flag, and clears
  nothing.\<close>

theorem buffers_survive_exit:
  "fst (forward echo_decoder idle_state ([[[0]]], [[[0]]]) None (Some [[1]]) None None)
     = Inr (Generated [[[1], [(sqrt (1 / 2) / 2 + 1) * sqrt (1 / 2) + 1]]] [[[1], [1]]] True)
   \<and> is_inference_incremental
       (fst (snd (forward echo_decoder idle_state ([[[0]]], [[[0]]]) None (Some [[1]]) None None)))
     = False
   \<and> input_buffer
       (fst (snd (forward echo_decoder idle_state ([[[0]]], [[[0]]]) None (Some [[1]]) None None))) 0
     = Some [[[1]]]"
  by (simp add: incremental_loop.simps example_defs echo_decoder_def numeric_defs forward_defs
      Let_def)

text \<open>
  C5, as the code has it. The buffers are cleared when incremental inference starts
  (\<^verbatim>\<open>start_fresh_sequence\<close>, called by \<^verbatim>\<open>_start_incremental_inference\<close> once the flag is
  set), not when it ends: \<^verbatim>\<open>_stop_incremental_inference\<close> leaves them as they are. Since
  every generation through \<^verbatim>\<open>Decoder.forward\<close> clears them first, what an earlier
  generation left in the buffers changes nothing in a later one: result, final state
  and encoder output are the same whatever the buffers held before.
\<close>

theorem buffers_cleared_at_start:
  assumes "\<not> is_inference_incremental s"
  shows "input_buffer (snd (start_incremental_inference d s)) = (\<lambda>i. None)
       \<and> input_buffer (stop_incremental_inference s') = input_buffer s'
       \<and> forward d (s\<lparr>input_buffer := b\<rparr>) encoder_out None (Some text_positions)
            frame_positions lengths
          = forward d s encoder_out None (Some text_positions) frame_positions lengths"
  using assms
  by (simp add: forward_def start_incremental_inference_def start_fresh_sequence_def
      stop_incremental_inference_def)

theorem buffers_cleared_at_start_witness:
  "\<not> is_inference_incremental idle_state
   \<and> input_buffer (snd (start_incremental_inference echo_decoder idle_state)) = (\<lambda>i. None)
   \<and> forward echo_decoder (idle_state\<lparr>input_buffer := (\<lambda>i. None)(0 := Some [[[1]]])\<rparr>)
        ([[[0]]], [[[0]]]) None (Some [[1]]) None None
      = forward echo_decoder idle_state ([[[0]]], [[[0]]]) None (Some [[1]]) None None"
proof -
  have h: "\<not> is_inference_incremental idle_state" by (simp add: idle_state_def)
  from buffers_cleared_at_start[OF h] show ?thesis using h by blast
qed

section \<open>The encoder output\<close>

text \<open>An incremental generation adds the positional embedding into the caller's
  \<^verbatim>\<open>keys\<close> tensor (\<^verbatim>\<open>keys += text_pos_embed\<close>): keys of 0 hold 1 afterwards.\<close>

theorem forward_changes_keys:
  "snd (snd (forward shifting_decoder idle_state ([[[0]]], [[[0]]]) None (Some [[1]]) None None))
     = ([[[1]]], [[[0]]])"
  by (simp add: incremental_loop.simps example_defs shifting_decoder_def numeric_defs
      forward_defs Let_def)

lemma collect_Inr: "collect (map Inr xs) = Inr xs"
  by (induction xs) simp_all

lemma iadd_vec_same: "length e = length k \<Longrightarrow> iadd_vec k e = Inr (vadd k e)"
  by (simp add: iadd_vec_def vadd_def)

lemma iadd_mat_same:
  assumes "map length k = map length e"
  shows "iadd_mat k e = Inr (map2 vadd k e)"
proof -
  have len: "length e = length k"
    using assms by (metis length_map)
  have each: "map2 iadd_vec k e = map Inr (map2 vadd k e)"
    using len assms
    by (induction e k rule: list_induct2) (simp_all add: iadd_vec_same)
  have "iadd_mat k e = collect (map2 iadd_vec k e)"
    using len by (simp add: iadd_mat_def)
  also have "\<dots> = collect (map Inr (map2 vadd k e))"
    by (simp only: each)
  finally show ?thesis by (simp only: collect_Inr)
qed

lemma iadd_same_shape:
  assumes "same_shape keys emb"
  shows "iadd keys emb = Inr (tadd keys emb)"
proof -
  have len: "length emb = length keys"
    using assms by (metis length_map same_shape_def)
  have each: "map2 iadd_mat keys emb = map Inr (map2 (map2 vadd) keys emb)"
    using len assms unfolding same_shape_def
    by (induction emb keys rule: list_induct2) (simp_all add: iadd_mat_same)
  have "iadd keys emb = collect (map2 iadd_mat keys emb)"
    using len by (simp add: iadd_def)
  also have "\<dots> = collect (map Inr (map2 (map2 vadd) keys emb))"
    by (simp only: each)
  finally show ?thesis by (simp only: collect_Inr tadd_def)
qed

text \<open>A generation whose steps fail (the query table is empty) has written the keys
  all the same, and an embedding of one text position is broadcast over two keys.\<close>

lemma late_failure_keeps_keys:
  "forward late_failing_decoder idle_state ([[[0]]], [[[0]]]) None (Some [[1]]) None None
     = (Inl RuntimeError,
        idle_state\<lparr>is_inference_incremental := True, forward_is_incremental := True\<rparr>,
        ([[[1]]], [[[0]]]))"
  by (simp add: incremental_loop.simps example_defs shifting_decoder_def late_failing_decoder_def
      forward_defs decoder_step_def embedding_def size0_def)

lemma broadcast_positions:
  "add_positions (embed_keys_positions shifting_decoder) [[[0], [0]]] [[1]] = Inr [[[1], [1]]]"
  by (simp add: example_defs shifting_decoder_def add_positions_def iadd_def iadd_mat_def
      iadd_vec_def embedding_def)

lemma broadcast_run:
  "fst (forward shifting_decoder idle_state ([[[0], [0]]], [[[0], [0]]]) None (Some [[1]])
          None None)
     = Inr (Generated [replicate 11 [0]] [replicate 11 [1 / 2, 1 / 2]] False)"
  by (simp add: incremental_loop.simps example_defs shifting_decoder_def numeric_defs
      forward_defs Let_def eval_nat_numeral)

text \<open>
  C4, as the code has it. No call of \<^verbatim>\<open>Decoder.forward\<close> changes \<^verbatim>\<open>values\<close>. What the
  caller's \<^verbatim>\<open>keys\<close> tensor holds after a call: the keys as they were when no text
  positions are given, or when the call raises before \<^verbatim>\<open>keys += text_pos_embed\<close> (the
  re-entrance assertion in incremental mode; the grouping of the inputs or the mask
  in teacher-forced mode; the lookup of the text positions or a shape that does not
  broadcast); in every other call the keys with the embedding of the text positions
  added in place, whether the rest of the call returns or raises. When the embedding
  has the shape of the keys, that is their elementwise sum.
\<close>

theorem forward_writes_keys_only:
  "snd (snd (forward d s (keys, vals) inputs tp fp ls))
     = ((case tp of
           None \<Rightarrow> keys
         | Some p \<Rightarrow>
             if (case inputs of
                   None \<Rightarrow> \<not> is_inference_incremental s
                 | Some inp \<Rightarrow>
                     \<not> isl (group_frames d inp)
                     \<and> (case ls of None \<Rightarrow> True
                        | Some l \<Rightarrow> \<not> isl (get_mask_from_lengths keys l)))
             then (case add_positions (embed_keys_positions d) keys p of
                     Inl e \<Rightarrow> keys | Inr keys' \<Rightarrow> keys')
             else keys),
        vals)
   \<and> (\<forall>p emb. embedding (embed_keys_positions d) p = Inr emb \<and> same_shape keys emb
         \<longrightarrow> add_positions (embed_keys_positions d) keys p = Inr (tadd keys emb))"
proof -
  have shape: "\<forall>p emb. embedding (embed_keys_positions d) p = Inr emb \<and> same_shape keys emb
         \<longrightarrow> add_positions (embed_keys_positions d) keys p = Inr (tadd keys emb)"
    by (simp add: add_positions_def iadd_same_shape)
  have eff: "snd (snd (forward d s (keys, vals) inputs tp fp ls))
     = ((case tp of
           None \<Rightarrow> keys
         | Some p \<Rightarrow>
             if (case inputs of
                   None \<Rightarrow> \<not> is_inference_incremental s
                 | Some inp \<Rightarrow>
                     \<not> isl (group_frames d inp)
                     \<and> (case ls of None \<Rightarrow> True
                        | Some l \<Rightarrow> \<not> isl (get_mask_from_lengths keys l)))
             then (case add_positions (embed_keys_positions d) keys p of
                     Inl e \<Rightarrow> keys | Inr keys' \<Rightarrow> keys')
             else keys),
        vals)"
  proof (cases inputs)
    case None
    then show ?thesis
      by (cases tp; cases "is_inference_incremental s")
         (auto simp: forward_def start_incremental_inference_def start_fresh_sequence_def
            incremental_forward_def split: sum.splits prod.splits)
  next
    case (Some inp)
    have "snd (snd (forward d s (keys, vals) inputs tp fp ls))
            = snd (teacher_forced_forward d (keys, vals) inp tp fp ls)"
      using Some by (auto simp: forward_def split: prod.splits sum.splits)
    moreover have "snd (teacher_forced_forward d (keys, vals) inp tp fp ls)
       = ((case tp of
           None \<Rightarrow> keys
         | Some p \<Rightarrow>
             if \<not> isl (group_frames d inp)
                \<and> (case ls of None \<Rightarrow> True
                   | Some l \<Rightarrow> \<not> isl (get_mask_from_lengths keys l))
             then (case add_positions (embed_keys_positions d) keys p of
                     Inl e \<Rightarrow> keys | Inr keys' \<Rightarrow> keys')
             else keys),
        vals)"
      by (cases tp; cases ls)
         (auto simp: teacher_forced_forward_def split: sum.splits prod.splits option.splits)
    ultimately show ?thesis by (cases tp) (simp_all add: Some)
  qed
  show ?thesis using eff shape by (rule conjI)
qed

theorem forward_writes_keys_only_witness:
  "snd (snd (forward late_failing_decoder idle_state ([[[0]]], [[[0]]]) None (Some [[1]])
               None None))
     = ([[[1]]], [[[0]]])
   \<and> fst (forward late_failing_decoder idle_state ([[[0]]], [[[0]]]) None (Some [[1]])
            None None)
     = Inl RuntimeError
   \<and> embedding (embed_keys_positions late_failing_decoder) [[1]] = Inr [[[1]]]
   \<and> same_shape [[[0]]] [[[1]]]
   \<and> add_positions (embed_keys_positions late_failing_decoder) [[[0]]] [[1]]
     = Inr (tadd [[[0]]] [[[1]]])
   \<and> snd (snd (forward shifting_decoder idle_state ([[[0], [0]]], [[[0], [0]]]) None
                  (Some [[1]]) None None))
     = ([[[1], [1]]], [[[0], [0]]])
   \<and> fst (forward shifting_decoder idle_state ([[[0], [0]]], [[[0], [0]]]) None (Some [[1]])
            None None)
     = Inr (Generated [replicate 11 [0]] [replicate 11 [1 / 2, 1 / 2]] False)"
proof -
  have emb: "embedding (embed_keys_positions late_failing_decoder) [[1]] = Inr [[[1]]]"
    by (simp add: example_defs shifting_decoder_def late_failing_decoder_def embedding_def)
  have sh: "same_shape [[[0]]] [[[1]]]"
    by (simp add: same_shape_def)
  note w1 = forward_writes_keys_only[of late_failing_decoder idle_state "[[[0]]]" "[[[0]]]" None
      "Some [[1]]" None None]
  have add: "add_positions (embed_keys_positions late_failing_decoder) [[[0]]] [[1]]
               = Inr (tadd [[[0]]] [[[1]]])"
    using w1 emb sh by blast
  have a: "snd (snd (forward late_failing_decoder idle_state ([[[0]]], [[[0]]]) None (Some [[1]])
               None None)) = ([[[1]]], [[[0]]])"
    using w1 add by (simp add: idle_state_def tadd_def vadd_def)
  have b: "fst (forward late_failing_decoder idle_state ([[[0]]], [[[0]]]) None (Some [[1]])
            None None) = Inl RuntimeError"
    using late_failure_keeps_keys by simp
  note w2 = forward_writes_keys_only[of shifting_decoder idle_state "[[[0], [0]]]"
      "[[[0], [0]]]" None "Some [[1]]" None None]
  have c: "snd (snd (forward shifting_decoder idle_state ([[[0], [0]]], [[[0], [0]]]) None
                  (Some [[1]]) None None)) = ([[[1], [1]]], [[[0], [0]]])"
    using w2 broadcast_positions by (simp add: idle_state_def)
  show ?thesis by (intro conjI a b emb sh add c broadcast_run)
qed

section \<open>Alignment weights\<close>

lemma exp_score_nonneg: "0 \<le> exp_score v"
  by (cases v) (simp_all add: exp_score_def)

lemma sum_exp_score_nonneg: "0 \<le> sum_list (map exp_score row)"
  by (induction row) (simp_all add: exp_score_nonneg)

lemma sum_exp_score_pos:
  "row \<noteq> [] \<Longrightarrow> \<not> nan_row row \<Longrightarrow> 0 < sum_list (map exp_score row)"
proof (induction row)
  case Nil
  then show ?case by simp
next
  case (Cons v row)
  show ?case
  proof (cases v)
    case None
    then have "row \<noteq> []" "\<not> nan_row row" using Cons.prems by (auto simp: nan_row_def)
    then show ?thesis using Cons.IH None by (simp add: exp_score_def)
  next
    case (Some u)
    have "0 < exp_score v" using Some by (simp add: exp_score_def)
    then show ?thesis using sum_exp_score_nonneg[of row] by simp
  qed
qed

lemma softmax_sums_to_one:
  assumes "row \<noteq> []" and "\<not> nan_row row"
  shows "sum_list (softmax row) = 1"
proof -
  let ?z = "sum_list (map exp_score row)"
  have z: "0 < ?z" using sum_exp_score_pos[OF assms] .
  have "sum_list (softmax row) = sum_list (map (\<lambda>v. exp_score v * inverse ?z) row)"
    by (simp add: softmax_def divide_inverse)
  also have "\<dots> = sum_list (map exp_score row) * inverse ?z"
    by (simp add: sum_list_mult_const)
  also have "\<dots> = 1" using z by simp
  finally show ?thesis .
qed

lemma softmax_masked_zero:
  "j < length row \<Longrightarrow> row ! j = None \<Longrightarrow> softmax row ! j = 0"
  by (simp add: softmax_def exp_score_def)

lemma softmax_nonneg:
  "j < length row \<Longrightarrow> 0 \<le> softmax row ! j"
  by (simp add: softmax_def exp_score_nonneg sum_exp_score_nonneg)

lemma length_softmax: "length (softmax row) = length row"
  by (simp add: softmax_def)


lemma attention_forward_Inr:
  assumes "attention_forward a query (keys, vals) msk = Inr (x, attn_scores)"
  shows "attn_scores
           = map (map softmax) (masked_fill (bmm_keys (Linear (in_projection a) query) keys) msk)
       \<and> \<not> list_ex (list_ex nan_row)
             (masked_fill (bmm_keys (Linear (in_projection a) query) keys) msk)
       \<and> size1 vals \<noteq> 0"
  using assms by (auto simp: attention_forward_def Let_def split: if_splits)

lemma bmm_keys_row:
  assumes "b < length (bmm_keys xq keys)" and "q < length (bmm_keys xq keys ! b)"
  shows "b < length keys \<and> bmm_keys xq keys ! b ! q = map (dot (xq ! b ! q)) (keys ! b)"
  using assms by (auto simp: bmm_keys_def)

lemma masked_fill_row:
  assumes "b < length (masked_fill xs msk)" and "q < length (masked_fill xs msk ! b)"
  shows "b < length xs \<and> q < length (xs ! b)
       \<and> masked_fill xs msk ! b ! q
           = (case msk of None \<Rightarrow> map Some (xs ! b ! q)
              | Some m \<Rightarrow> map2 (\<lambda>v masked. if masked then None else Some v) (xs ! b ! q) (m ! b))
       \<and> (case msk of None \<Rightarrow> True | Some m \<Rightarrow> b < length m)"
  using assms by (cases msk) (auto simp: masked_fill_def)

text \<open>
  C2. When an attention layer returns (no row of the scores is masked everywhere, and
  there is at least one text position), every row of the alignment weights it returns,
  for every batch element and every query time step, sums to 1 over the text-time
  axis, has no negative entry, and is exactly 0 at every position the padding mask
  marks. The teacher-forced decoder passes the mask of \<open>get_mask_from_lengths\<close>; the
  incremental decoder passes none, and then the rows sum to 1 all the same.
\<close>

theorem attention_weights_row_stochastic:
  assumes res: "attention_forward a query (keys, vals) msk = Inr (x, attn_scores)"
    and keys_ne: "list_all (\<lambda>kb. kb \<noteq> []) keys"
    and mask_ne: "case msk of None \<Rightarrow> True | Some m \<Rightarrow> list_all (\<lambda>mb. mb \<noteq> []) m"
    and b: "b < length attn_scores" and q: "q < length (attn_scores ! b)"
  shows "sum_list (attn_scores ! b ! q) = 1
       \<and> (\<forall>j < length (attn_scores ! b ! q).
             0 \<le> attn_scores ! b ! q ! j
             \<and> (case msk of None \<Rightarrow> True
                | Some m \<Rightarrow> (m ! b ! j \<longrightarrow> attn_scores ! b ! q ! j = 0)))"
proof -
  let ?xs = "bmm_keys (Linear (in_projection a) query) keys"
  let ?xm = "masked_fill ?xs msk"
  from attention_forward_Inr[OF res] have
    attn: "attn_scores = map (map softmax) ?xm" and
    nonan: "\<not> list_ex (list_ex nan_row) ?xm"
    by simp_all
  have b': "b < length ?xm" and q': "q < length (?xm ! b)"
    using b q attn by simp_all
  let ?row = "?xm ! b ! q"
  have row: "attn_scores ! b ! q = softmax ?row"
    using attn b' q' by simp
  have nn: "\<not> nan_row ?row"
    using nonan b' q' by (auto simp: list_ex_length)
  from masked_fill_row[OF b' q'] have
    bx: "b < length ?xs" and qx: "q < length (?xs ! b)" and
    fill: "?row = (case msk of None \<Rightarrow> map Some (?xs ! b ! q)
              | Some m \<Rightarrow> map2 (\<lambda>v masked. if masked then None else Some v) (?xs ! b ! q) (m ! b))"
    and bm: "case msk of None \<Rightarrow> True | Some m \<Rightarrow> b < length m"
    by simp_all
  from bmm_keys_row[OF bx qx] have
    bk: "b < length keys" and
    scores: "?xs ! b ! q = map (dot (Linear (in_projection a) query ! b ! q)) (keys ! b)"
    by simp_all
  have kne: "keys ! b \<noteq> []"
    using keys_ne bk by (simp add: list_all_length)
  have ne: "?row \<noteq> []"
  proof (cases msk)
    case None
    then show ?thesis using fill scores kne by simp
  next
    case (Some m)
    then have "m ! b \<noteq> []" using mask_ne bm by (simp add: list_all_length)
    then show ?thesis using Some fill scores kne by simp
  qed
  have one: "sum_list (attn_scores ! b ! q) = 1"
    using row softmax_sums_to_one[OF ne nn] by simp
  have rest: "0 \<le> attn_scores ! b ! q ! j
             \<and> (case msk of None \<Rightarrow> True
                | Some m \<Rightarrow> (m ! b ! j \<longrightarrow> attn_scores ! b ! q ! j = 0))"
    if j: "j < length (attn_scores ! b ! q)" for j
  proof -
    have jr: "j < length ?row" using j row by (simp add: length_softmax)
    have pos: "0 \<le> attn_scores ! b ! q ! j"
      using row softmax_nonneg[OF jr] by simp
    have "attn_scores ! b ! q ! j = 0" if m: "msk = Some m" and mj: "m ! b ! j" for m
    proof -
      have "?row ! j = None" using fill m mj jr by simp
      then show ?thesis using row softmax_masked_zero[OF jr] by simp
    qed
    then show ?thesis using pos by (cases msk) auto
  qed
  show ?thesis using one rest by blast
qed

theorem attention_weights_row_stochastic_witness:
  "attention_forward uniform_attention [[[0]]] ([[[0], [0], [0]]], [[[0], [0], [0]]])
       (Some [[False, False, True]])
     = Inr ([[[0]]], [[[1 / 2, 1 / 2, 0]]])
   \<and> get_mask_from_lengths [[[0], [0], [0]]] [2] = Inr [[False, False, True]]
   \<and> sum_list [1 / 2, 1 / 2, 0 :: real] = 1
   \<and> [1 / 2, 1 / 2, 0 :: real] ! 2 = 0"
proof -
  have run: "attention_forward uniform_attention [[[0]]] ([[[0], [0], [0]]], [[[0], [0], [0]]])
       (Some [[False, False, True]])
     = Inr ([[[0]]], [[[1 / 2, 1 / 2, 0]]])"
    by (simp add: example_defs numeric_defs Let_def)
  have k: "list_all (\<lambda>kb. kb \<noteq> []) [[[0 :: real], [0], [0]]]" by simp
  have m: "case Some [[False, False, True]] of None \<Rightarrow> True
           | Some m \<Rightarrow> list_all (\<lambda>mb. mb \<noteq> []) m" by simp
  have b: "0 < length [[[1 / 2, 1 / 2, 0 :: real]]]" by simp
  have q: "0 < length ([[[1 / 2, 1 / 2, 0 :: real]]] ! 0)" by simp
  from attention_weights_row_stochastic[OF run k m b q]
  have "sum_list [1 / 2, 1 / 2, 0 :: real] = 1 \<and> [1 / 2, 1 / 2, 0 :: real] ! 2 = 0"
    by simp
  moreover have "get_mask_from_lengths [[[0], [0], [0]]] [2] = Inr [[False, False, True]]"
    by (simp add: get_mask_from_lengths_def size0_def size1_def fill_prefix_def slice_stop_def)
  ultimately show ?thesis using run by blast
qed

section \<open>The positional encoding table\<close>

text \<open>What the code computes: row 0 is zero, and in every other row the entry of column
  \<open>i\<close> has the exponent \<open>2 i / d\<close> of that very column, for all columns \<open>i < d\<close>.\<close>

lemma position_encoding_entries:
  assumes "0 < n_position"
  shows "\<exists>table. position_encoding_init n_position d_pos_vec = Inr table
           \<and> length table = n_position
           \<and> table ! 0 = replicate d_pos_vec 0
           \<and> (\<forall>pos i. 1 \<le> pos \<and> pos < n_position \<and> i < d_pos_vec \<longrightarrow>
                 table ! pos ! i
                   = (if even i then sin (real pos / 10000 powr (2 * real i / real d_pos_vec))
                      else cos (real pos / 10000 powr (2 * real i / real d_pos_vec))))"
  using assms by (auto simp: position_encoding_init_def Let_def)

text \<open>
  C6. The claim: row \<open>pos\<close> holds \<open>sin(pos / 10000^(2i/d))\<close> in the even column and
  \<open>cos(pos / 10000^(2i/d))\<close> in the odd column of pair \<open>i\<close>, \<open>i\<close> ranging over \<open>0..d/2\<close>
  (the sinusoid table; the source's comments name the columns \<^verbatim>\<open>dim 2i\<close> and
  \<^verbatim>\<open>dim 2i+1\<close>). The code for two positions and \<open>d = 2\<close>: the one pair is \<open>i = 0\<close>, the
  claim's row 1 is \<open>(sin 1, cos 1)\<close>, and the code's row 1 is \<open>(sin 1, cos (1/10000))\<close>,
  the odd column taking the exponent \<open>2 \<cdot> 1 / 2\<close> of its own index.
\<close>

theorem position_encoding_odd_column:
  "position_encoding_init 2 2 = Inr [[0, 0], [sin 1, cos (1 / 10000)]]
   \<and> cos (1 / 10000 :: real) \<noteq> cos 1"
proof -
  have "cos (1 :: real) < cos (1 / 10000)"
    using pi_ge_two by (intro cos_monotone_0_pi) auto
  moreover have "position_encoding_init 2 2 = Inr [[0, 0], [sin 1, cos (1 / 10000)]]"
    by (simp add: position_encoding_init_def Let_def upt_rec[of 0] upt_rec[of 1] numeral_2_eq_2)
  ultimately show ?thesis by simp
qed

section \<open>Incremental and teacher-forced layers\<close>

lemma time_slice_map: "time_slice (map (map f) x) t = map (map f) (time_slice x t)"
  by (simp add: time_slice_def take_map drop_map)

lemma time_slice_map2:
  "time_slice (map2 (\<lambda>xb yb. map (g yb) xb) x y) t = map2 (\<lambda>xb yb. map (g yb) xb) (time_slice x t) y"
  by (auto simp: time_slice_def take_map drop_map zip_map1)

lemma time_slice_Linear: "time_slice (Linear f x) t = Linear f (time_slice x t)"
  by (simp add: Linear_def time_slice_map)

lemma time_slice_tscale: "time_slice (tscale x c) t = tscale (time_slice x t) c"
  by (simp add: tscale_def time_slice_map)

lemma time_slice_tadd: "time_slice (tadd x y) t = tadd (time_slice x t) (time_slice y t)"
  by (auto simp: tadd_def time_slice_def zip_map1 zip_map2 take_map drop_map take_zip drop_zip)

lemma time_slice_bmm_keys: "time_slice (bmm_keys x keys) t = bmm_keys (time_slice x t) keys"
  by (auto simp: bmm_keys_def time_slice_def take_map drop_map zip_map1)

lemma attention_forward_time_slice:
  "attention_forward a (time_slice query t) (keys, vals) None
     = (case attention_forward a query (keys, vals) None of
          Inl e \<Rightarrow> Inl e
        | Inr xa \<Rightarrow> Inr (time_slice (fst xa) t, time_slice (snd xa) t))"
  using no_nan_unmasked
  by (simp add: attention_forward_def Let_def time_slice_Linear time_slice_tscale time_slice_tadd
      time_slice_bmm_keys time_slice_map time_slice_map2 masked_fill_def)

lemma length_padding: "length (padding c) = kernel_size c - 1"
  by (simp add: padding_def)

lemma take1_drop: "t < length zs \<Longrightarrow> take 1 (drop t zs) = [zs ! t]"
  using Cons_nth_drop_Suc[of t zs, symmetric] by simp

lemma take_Suc_drop: "t < length xb \<Longrightarrow> take t xb @ take 1 (drop t xb) = take (Suc t) xb"
  by (simp add: take1_drop take_Suc_conv_app_nth)

lemma drop_append_left: "t \<le> length ys \<Longrightarrow> drop t (ys @ zs) = drop t ys @ zs"
  by simp

lemma take_drop_swap: "take k (drop t zs) = drop t (take (t + k) zs)"
  by (simp add: drop_take)

lemma window_ends_at:
  assumes "t < length xb"
  shows "drop t (pad @ take t xb) @ take 1 (drop t xb) = drop t (pad @ take (Suc t) xb)"
proof -
  have "pad @ take (Suc t) xb = (pad @ take t xb) @ take 1 (drop t xb)"
    using take_Suc_drop[OF assms] by simp
  moreover have "t \<le> length (pad @ take t xb)"
    using assms by simp
  ultimately show ?thesis
    using drop_append_left[of t "pad @ take t xb" "take 1 (drop t xb)"] by simp
qed

lemma causal_window:
  assumes "0 < k" and "t < length xb" and "length pad = k - 1"
  shows "take k (drop t (pad @ xb @ pad)) = drop t (pad @ take t xb) @ take 1 (drop t xb)"
proof -
  have tk: "t + k = length pad + Suc t" using assms(1,3) by simp
  have "take (length pad + Suc t) (pad @ (xb @ pad)) = pad @ take (Suc t) (xb @ pad)"
    by simp
  moreover have "take (Suc t) (xb @ pad) = take (Suc t) xb"
    using assms(2) by simp
  ultimately have "take (t + k) (pad @ xb @ pad) = pad @ take (Suc t) xb"
    using tk by simp
  then have "take k (drop t (pad @ xb @ pad)) = drop t (pad @ take (Suc t) xb)"
    by (simp only: take_drop_swap[of k t "pad @ xb @ pad"])
  then show ?thesis using window_ends_at[OF assms(2), of pad] by simp
qed

lemma window_slides:
  assumes "t < length xb"
  shows "drop 1 (drop t (pad @ take t xb) @ take 1 (drop t xb))
           = drop (Suc t) (pad @ take (Suc t) xb)"
proof -
  have "drop 1 (drop t (pad @ take (Suc t) xb)) = drop (Suc t) (pad @ take (Suc t) xb)"
    by (simp only: drop_drop) simp
  then show ?thesis using window_ends_at[OF assms, of pad] by simp
qed

lemma length_windows: "length (windows k xs) = Suc (length xs) - k"
  by (simp add: windows_def)

lemma nth_windows: "t < Suc (length xs) - k \<Longrightarrow> windows k xs ! t = take k (drop t xs)"
  by (simp add: windows_def)

lemma causal_conv_row:
  assumes k: "0 < kernel_size c" and t: "t < length xb"
  shows "take 1 (drop t (take (length (map (weight c)
            (windows (kernel_size c) (padding c @ xb @ padding c))) - (kernel_size c - 1))
          (map (weight c) (windows (kernel_size c) (padding c @ xb @ padding c)))))
        = [weight c (drop t (padding c @ take t xb) @ take 1 (drop t xb))]"
proof -
  let ?k = "kernel_size c"
  let ?ws = "windows ?k (padding c @ xb @ padding c)"
  let ?ys = "map (weight c) ?ws"
  have len: "length ?ws = length xb + (?k - 1)"
    using k by (simp add: length_windows length_padding)
  have tw: "t < Suc (length (padding c @ xb @ padding c)) - ?k"
    using len t by (simp add: length_windows)
  have nth: "?ws ! t = take ?k (drop t (padding c @ xb @ padding c))"
    using nth_windows[OF tw] .
  have n: "length ?ys - (?k - 1) = length xb" using len by simp
  have tl: "t < length (take (length xb) ?ys)" using len t by simp
  have "take 1 (drop t (take (length xb) ?ys)) = [take (length xb) ?ys ! t]"
    using take1_drop[OF tl] .
  also have "take (length xb) ?ys ! t = ?ys ! t" using t by simp
  also have "?ys ! t = weight c (?ws ! t)" using len t by simp
  finally have "take 1 (drop t (take (length xb) ?ys))
                  = [weight c (take ?k (drop t (padding c @ xb @ padding c)))]"
    using nth by simp
  then show ?thesis
    using n causal_window[OF k t length_padding] by simp
qed

lemma conv_forward_slice:
  assumes "0 < kernel_size c" and "list_all (\<lambda>xb. t < length xb) x"
  shows "time_slice (remove_future_timesteps c (conv_forward c x)) t
           = map (\<lambda>w. [weight c w]) (window_at c x t)"
  using assms(2) causal_conv_row[OF assms(1)]
  by (simp add: time_slice_def remove_future_timesteps_def conv_forward_def window_at_def
      list_all_iff)

lemma incremental_forward_conv_slice:
  assumes "buffer_ok c buf x t"
  shows "incremental_forward_conv c buf (time_slice x t)
           = (map (\<lambda>w. [weight c w]) (window_at c x t), Some (map (drop 1) (window_at c x t)))"
proof -
  have held: "(case buf of None \<Rightarrow> map (\<lambda>_. padding c) (time_slice x t) | Some b \<Rightarrow> b)
                = buffer_at c x t"
    using assms by (cases buf) (simp_all add: buffer_ok_def buffer_at_def time_slice_def)
  have "map2 (\<lambda>hb xb. hb @ xb) (buffer_at c x t) (time_slice x t) = window_at c x t"
    by (simp add: buffer_at_def time_slice_def window_at_def zip_map1 zip_map2 zip_same_conv_map)
  then show ?thesis
    using held by (simp add: incremental_forward_conv_def Let_def map_map[symmetric] del: map_map)
qed

lemma next_buffer:
  assumes "list_all (\<lambda>xb. t < length xb) x"
  shows "map (drop 1) (window_at c x t) = buffer_at c x (Suc t)"
proof -
  have "drop 1 (drop t (padding c @ take t xb) @ take 1 (drop t xb))
          = drop (Suc t) (padding c @ take (Suc t) xb)" if "xb \<in> set x" for xb
    using that assms window_slides[of t xb "padding c"] by (simp add: list_all_iff)
  then show ?thesis
    unfolding window_at_def buffer_at_def map_map comp_def by (intro map_cong refl)
qed

lemma rows_len_map: "rows_len n x \<Longrightarrow> rows_len n (map (map f) x)"
  by (simp add: rows_len_def list_all_iff)

lemma rows_len_map2:
  "rows_len n x \<Longrightarrow> rows_len n (map2 (\<lambda>xb yb. map (g yb) xb) x y)"
  by (auto simp: rows_len_def list_all_iff dest: set_zip_leftD)

lemma rows_len_tadd: "rows_len n x \<Longrightarrow> rows_len n y \<Longrightarrow> rows_len n (tadd x y)"
  by (auto simp: rows_len_def list_all_iff tadd_def elim!: in_set_zipE)

lemma rows_len_tscale: "rows_len n x \<Longrightarrow> rows_len n (tscale x c)"
  by (simp add: tscale_def rows_len_map)

lemma rows_len_Linear: "rows_len n x \<Longrightarrow> rows_len n (Linear f x)"
  by (simp add: Linear_def rows_len_map)

lemma rows_len_conv:
  "0 < kernel_size c \<Longrightarrow> rows_len n x
   \<Longrightarrow> rows_len n (remove_future_timesteps c (conv_forward c x))"
  by (simp add: rows_len_def list_all_iff remove_future_timesteps_def conv_forward_def
      length_windows length_padding)

lemma rows_len_attention:
  assumes "attention_forward a query (keys, vals) None = Inr xa" and "rows_len n query"
  shows "rows_len n (fst xa)"
proof -
  have "fst xa = tscale (tadd (Linear (out_projection a)
            (tscale (map2 (\<lambda>xb vb. map (\<lambda>w. weighted_sum w vb) xb)
                      (map (map softmax)
                         (masked_fill (bmm_keys (Linear (in_projection a) query) keys) None))
                      vals)
               (real (size1 vals) * sqrt (1 / real (size1 vals))))) query) (sqrt (1 / 2))"
    using assms(1) by (auto simp: attention_forward_def Let_def split: if_splits)
  moreover have "rows_len n (map (map softmax)
                         (masked_fill (bmm_keys (Linear (in_projection a) query) keys) None))"
    unfolding masked_fill_def bmm_keys_def option.case
    by (intro rows_len_map rows_len_map2 rows_len_Linear assms(2))
  ultimately show ?thesis
    using assms(2)
    by (simp add: rows_len_tscale rows_len_tadd rows_len_Linear rows_len_map2)
qed

lemma forward_layers_Cons:
  "forward_layers keys vals fe msk (l # ls) x als
     = (case forward_layers keys vals fe msk [l] x als of
          Inl e \<Rightarrow> Inl e
        | Inr xa \<Rightarrow> forward_layers keys vals fe msk ls (fst xa) (snd xa))"
  by (simp add: Let_def split: option.splits sum.splits)

lemma forward_layer_output:
  "map_sum id fst (forward_layers keys vals fe msk [l] x als)
     = map_sum id fst (forward_layers keys vals fe msk [l] x als')"
  by (simp add: Let_def split: option.splits sum.splits)

lemma forward_layer_rows:
  assumes "forward_layers keys vals (Some fpe) None [l] x als = Inr xa"
    and "0 < kernel_size (conv l)" and "rows_len n x" and "rows_len n fpe"
  shows "rows_len n (fst xa)"
proof -
  let ?res = "case proj l of None \<Rightarrow> x | Some p \<Rightarrow> Linear p x"
  let ?c1 = "map (map glu) (remove_future_timesteps (conv l) (conv_forward (conv l) x))"
  have res: "rows_len n ?res"
    using assms(3) by (cases "proj l") (simp_all add: rows_len_Linear)
  have c1: "rows_len n ?c1"
    using assms(2,3) by (simp add: rows_len_map rows_len_conv)
  show ?thesis
  proof (cases "attention l")
    case None
    then have "fst xa = tscale (tadd ?c1 ?res) (sqrt (1 / 2))"
      using assms(1) by (auto simp: Let_def)
    then show ?thesis using res c1 by (simp add: rows_len_tscale rows_len_tadd)
  next
    case (Some a)
    then obtain ya where
      att: "attention_forward a (tadd ?c1 fpe) (keys, vals) None = Inr ya"
      and out: "fst xa = tscale (tadd (fst ya) ?res) (sqrt (1 / 2))"
      using assms(1) by (auto simp: Let_def split: sum.splits)
    have "rows_len n (fst ya)"
      using rows_len_attention[OF att] c1 assms(4) by (simp add: rows_len_tadd)
    then show ?thesis using out res by (simp add: rows_len_tscale rows_len_tadd)
  qed
qed

lemma rows_len_slice: "rows_len n x \<Longrightarrow> t < n \<Longrightarrow> list_all (\<lambda>xb. t < length xb) x"
  by (simp add: rows_len_def list_all_iff)

lemma incremental_layer_step:
  assumes single: "forward_layers keys vals (Some fpe) None [l] x als = Inr xa"
    and k: "0 < kernel_size (conv l)"
    and rows: "list_all (\<lambda>xb. t < length xb) x"
    and ok: "buffer_ok (conv l) (bufs i) x t"
  shows "\<exists>ave'. incremental_layers keys vals (time_slice fpe t) i (l # ls) bufs (time_slice x t) ave
           = incremental_layers keys vals (time_slice fpe t) (Suc i) ls
               (bufs(i := Some (buffer_at (conv l) x (Suc t)))) (time_slice (fst xa) t) ave'"
proof -
  let ?res = "case proj l of None \<Rightarrow> x | Some p \<Rightarrow> Linear p x"
  let ?c1 = "map (map glu) (remove_future_timesteps (conv l) (conv_forward (conv l) x))"
  have res: "(case proj l of None \<Rightarrow> time_slice x t | Some p \<Rightarrow> Linear p (time_slice x t))
               = time_slice ?res t"
    by (cases "proj l") (simp_all add: time_slice_Linear)
  have cx: "incremental_forward_conv (conv l) (bufs i) (time_slice x t)
              = (time_slice (remove_future_timesteps (conv l) (conv_forward (conv l) x)) t,
                 Some (buffer_at (conv l) x (Suc t)))"
    using incremental_forward_conv_slice[OF ok] conv_forward_slice[OF k rows] next_buffer[OF rows]
    by simp
  have c1: "map (map glu) (time_slice (remove_future_timesteps (conv l) (conv_forward (conv l) x)) t)
              = time_slice ?c1 t"
    by (simp add: time_slice_map)
  show ?thesis
  proof (cases "attention l")
    case None
    then have "fst xa = tscale (tadd ?c1 ?res) (sqrt (1 / 2))"
      using single by (auto simp: Let_def)
    then have "time_slice (fst xa) t
                 = tscale (tadd (time_slice ?c1 t) (time_slice ?res t)) (sqrt (1 / 2))"
      by (simp add: time_slice_tscale time_slice_tadd)
    then show ?thesis
      using None res cx c1 by (auto simp: Let_def)
  next
    case (Some a)
    then obtain ya where
      att: "attention_forward a (tadd ?c1 fpe) (keys, vals) None = Inr ya"
      and out: "fst xa = tscale (tadd (fst ya) ?res) (sqrt (1 / 2))"
      using single by (auto simp: Let_def split: sum.splits)
    have att': "attention_forward a (tadd (time_slice ?c1 t) (time_slice fpe t)) (keys, vals) None
                  = Inr (time_slice (fst ya) t, time_slice (snd ya) t)"
      using attention_forward_time_slice[of a "tadd ?c1 fpe" t keys vals] att
      by (simp add: time_slice_tadd)
    have "time_slice (fst xa) t
            = tscale (tadd (time_slice (fst ya) t) (time_slice ?res t)) (sqrt (1 / 2))"
      using out by (simp add: time_slice_tscale time_slice_tadd)
    then show ?thesis
      using Some res cx c1 att' by (auto simp: Let_def)
  qed
qed

lemma buffers_at_cong:
  "(\<And>j. i \<le> j \<Longrightarrow> bufs j = bufs' j)
   \<Longrightarrow> buffers_at keys vals fpe i ls x t bufs = buffers_at keys vals fpe i ls x t bufs'"
proof (induction ls arbitrary: i x)
  case Nil
  then show ?case by simp
next
  case (Cons l ls)
  have "buffers_at keys vals fpe (Suc i) ls x' t bufs = buffers_at keys vals fpe (Suc i) ls x' t bufs'"
    for x'
    using Cons.prems by (intro Cons.IH) simp
  then show ?case using Cons.prems[of i] by (simp split: sum.splits)
qed

lemma buffers_at_start: "buffers_at keys vals fpe i ls x 0 (\<lambda>j. None)"
  by (induction ls arbitrary: i x) (simp_all add: buffer_ok_def split: sum.splits)

lemma incremental_layers_slice:
  assumes "forward_layers keys vals (Some fpe) None ls x als0 = Inr ya"
    and "list_all (\<lambda>l. 0 < kernel_size (conv l)) ls"
    and "rows_len n x" and "rows_len n fpe" and "t < n"
    and "buffers_at keys vals fpe i ls x t bufs"
  shows "\<exists>ave' bufs'.
           incremental_layers keys vals (time_slice fpe t) i ls bufs (time_slice x t) ave
             = (Inr (time_slice (fst ya) t, ave'), bufs')
         \<and> buffers_at keys vals fpe i ls x (Suc t) bufs'
         \<and> (\<forall>j<i. bufs' j = bufs j)"
  using assms
proof (induction ls arbitrary: i x bufs ave als0)
  case Nil
  then show ?case by auto
next
  case (Cons l ls)
  from Cons.prems(1) obtain xa where
    single: "forward_layers keys vals (Some fpe) None [l] x als0 = Inr xa"
    and rest: "forward_layers keys vals (Some fpe) None ls (fst xa) (snd xa) = Inr ya"
    by (subst (asm) forward_layers_Cons) (auto split: sum.splits)
  from forward_layer_output[of keys vals "Some fpe" None l x als0 "[]"] single
  obtain xa0 where
    single0: "forward_layers keys vals (Some fpe) None [l] x [] = Inr xa0"
    and same: "fst xa0 = fst xa"
    by (cases "forward_layers keys vals (Some fpe) None [l] x []") auto
  have k: "0 < kernel_size (conv l)"
    and ks: "list_all (\<lambda>l. 0 < kernel_size (conv l)) ls"
    using Cons.prems(2) by simp_all
  have ok: "buffer_ok (conv l) (bufs i) x t"
    and inv: "buffers_at keys vals fpe (Suc i) ls (fst xa) t bufs"
    using Cons.prems(6) single0 same by simp_all
  have rows: "list_all (\<lambda>xb. t < length xb) x"
    using rows_len_slice[OF Cons.prems(3,5)] .
  have rx: "rows_len n (fst xa)"
    using forward_layer_rows[OF single k Cons.prems(3,4)] .
  let ?bufs1 = "bufs(i := Some (buffer_at (conv l) x (Suc t)))"
  from incremental_layer_step[where bufs = bufs and i = i and ls = ls and ave = ave,
      OF single k rows ok] obtain ave1 where
    step: "incremental_layers keys vals (time_slice fpe t) i (l # ls) bufs (time_slice x t) ave
             = incremental_layers keys vals (time_slice fpe t) (Suc i) ls ?bufs1
                 (time_slice (fst xa) t) ave1"
    by blast
  have inv1: "buffers_at keys vals fpe (Suc i) ls (fst xa) t ?bufs1"
    using inv buffers_at_cong[of "Suc i" bufs ?bufs1 keys vals fpe ls "fst xa" t] by simp
  from Cons.IH[OF rest ks rx Cons.prems(4,5) inv1, of ave1] obtain ave' bufs' where
    run: "incremental_layers keys vals (time_slice fpe t) (Suc i) ls ?bufs1
            (time_slice (fst xa) t) ave1 = (Inr (time_slice (fst ya) t, ave'), bufs')"
    and inv': "buffers_at keys vals fpe (Suc i) ls (fst xa) (Suc t) bufs'"
    and frame: "\<forall>j<Suc i. bufs' j = ?bufs1 j"
    by blast
  have "buffer_ok (conv l) (bufs' i) x (Suc t)"
    using frame by (simp add: buffer_ok_def)
  then have "buffers_at keys vals fpe i (l # ls) x (Suc t) bufs'"
    using inv' single0 same by simp
  moreover have "\<forall>j<i. bufs' j = bufs j" using frame by simp
  ultimately show ?case using step run by simp
qed

lemma incremental_run_slices:
  assumes "forward_layers keys vals (Some fpe) None ls x [] = Inr ya"
    and "list_all (\<lambda>l. 0 < kernel_size (conv l)) ls"
    and "rows_len n x" and "rows_len n fpe"
    and "t0 + m \<le> n"
    and "buffers_at keys vals fpe 0 ls x t0 bufs"
  shows "incremental_run keys vals ls bufs
           (map (\<lambda>t. (time_slice x t, time_slice fpe t)) [t0..<t0 + m])
         = Inr (map (time_slice (fst ya)) [t0..<t0 + m])"
  using assms(5,6)
proof (induction m arbitrary: t0 bufs)
  case 0
  then show ?case by simp
next
  case (Suc m)
  have t: "t0 < n" using Suc.prems(1) by simp
  from incremental_layers_slice[OF assms(1-4) t Suc.prems(2), of None] obtain ave' bufs' where
    step: "incremental_layers keys vals (time_slice fpe t0) 0 ls bufs (time_slice x t0) None
             = (Inr (time_slice (fst ya) t0, ave'), bufs')"
    and inv: "buffers_at keys vals fpe 0 ls x (Suc t0) bufs'"
    by blast
  have "Suc t0 + m \<le> n" using Suc.prems(1) by simp
  from Suc.IH[OF this inv] have
    "incremental_run keys vals ls bufs'
           (map (\<lambda>t. (time_slice x t, time_slice fpe t)) [Suc t0..<Suc t0 + m])
         = Inr (map (time_slice (fst ya)) [Suc t0..<Suc t0 + m])" .
  moreover have "[t0..<t0 + Suc m] = t0 # [Suc t0..<Suc t0 + m]"
    by (simp add: upt_conv_Cons)
  ultimately show ?case using step by simp
qed

text \<open>
  C7. For layers of any kernel sizes (at least 1) and input sequences of any length
  \<open>n\<close>: when the teacher-forced loop over the layers returns \<open>y\<close> for the sequence \<open>x\<close>
  (positional embeddings given, no padding mask, as in incremental mode), the
  layers run in incremental mode from cleared buffers on the frames of \<open>x\<close>, one at a
  time, return for every step \<open>t < n\<close> the slice of \<open>y\<close> at \<open>t\<close>. With \<open>n = t + 1\<close> this is
  the claim's pass over the first \<open>t + 1\<close> frames.
\<close>

theorem incremental_matches_teacher_forced:
  assumes "forward_layers keys vals (Some frame_pos_embed) None ls x [] = Inr (y, alignments)"
    and "list_all (\<lambda>l. 0 < kernel_size (conv l)) ls"
    and "rows_len n x" and "rows_len n frame_pos_embed"
  shows "incremental_run keys vals ls (\<lambda>i. None)
           (map (\<lambda>t. (time_slice x t, time_slice frame_pos_embed t)) [0..<n])
         = Inr (map (time_slice y) [0..<n])"
  using incremental_run_slices[OF assms, of 0 n "\<lambda>i. None"] buffers_at_start
  by simp

lemma teacher_forced_example:
  "forward_layers [[[0]]] [[[0]]] (Some [[[0], [0]]]) None [example_layer] [[[1], [2]]] []
     = Inr ([[[(sqrt (1 / 2) / 2 + 1) * sqrt (1 / 2)],
              [(3 * sqrt (1 / 2) / 2 + 2) * sqrt (1 / 2)]]], [[[[1], [1]]]])"
  by (simp add: example_defs example_layer_def vadd_def tadd_def tscale_def Linear_def
      relu_def sigmoid_def glu_def dot_def zero_frame_def padding_def bmm_keys_def
      masked_fill_def exp_score_def softmax_def nan_row_def weighted_sum_def
      attention_forward_def size1_def conv_forward_def remove_future_timesteps_def windows_def
      Let_def upt_rec[of 0] upt_rec[of 1] upt_rec[of 2] numeral_2_eq_2 numeral_3_eq_3)

theorem incremental_matches_teacher_forced_witness:
  "forward_layers [[[0]]] [[[0]]] (Some [[[0], [0]]]) None [example_layer] [[[1], [2]]] []
     = Inr ([[[(sqrt (1 / 2) / 2 + 1) * sqrt (1 / 2)],
              [(3 * sqrt (1 / 2) / 2 + 2) * sqrt (1 / 2)]]], [[[[1], [1]]]])
   \<and> list_all (\<lambda>l. 0 < kernel_size (conv l)) [example_layer]
   \<and> rows_len 2 [[[1 :: real], [2]]] \<and> rows_len 2 [[[0 :: real], [0]]]
   \<and> incremental_run [[[0]]] [[[0]]] [example_layer] (\<lambda>i. None)
         [([[[1]]], [[[0]]]), ([[[2]]], [[[0]]])]
       = Inr [[[[(sqrt (1 / 2) / 2 + 1) * sqrt (1 / 2)]]],
              [[[(3 * sqrt (1 / 2) / 2 + 2) * sqrt (1 / 2)]]]]"
proof -
  have k: "list_all (\<lambda>l. 0 < kernel_size (conv l)) [example_layer]"
    by (simp add: example_defs example_layer_def)
  have rx: "rows_len 2 [[[1 :: real], [2]]]" and rf: "rows_len 2 [[[0 :: real], [0]]]"
    by (simp_all add: rows_len_def)
  from incremental_matches_teacher_forced[OF teacher_forced_example k rx rf]
  have "incremental_run [[[0]]] [[[0]]] [example_layer] (\<lambda>i. None)
         [([[[1]]], [[[0]]]), ([[[2]]], [[[0]]])]
       = Inr [[[[(sqrt (1 / 2) / 2 + 1) * sqrt (1 / 2)]]],
              [[[(3 * sqrt (1 / 2) / 2 + 2) * sqrt (1 / 2)]]]]"
    by (simp add: time_slice_def upt_rec[of 0] upt_rec[of 1] numeral_2_eq_2)
  then show ?thesis using teacher_forced_example k rx rf by blast
qed

end
